theory Spec2Isabelle
  imports Complex_Main "HOL-Library.Word"
begin

section \<open>Common types\<close>

text \<open>
  The header \<open>source.hpp\<close> holds two kinds of code: the byte ring buffer
  \<open>circlebuf\<close> (C, all \<open>static inline\<close>) and the inline members of class
  \<open>WAVSource\<close>. Machine integers are words of their width. A run that the
  source ends by a failed \<open>assert\<close>, or that leaves the allocated block, is an
  error value. The \<open>float\<close> members are modelled over the reals, and
  \<open>get_gravity\<close> a second time in binary32, since whether its denominator is
  zero depends on rounding; an operation whose floating-point result would be
  infinite or not a number on finite arguments (logarithm of a non-positive
  number, division by zero) is the error \<open>NonFinite\<close>.
\<close>

type_synonym byte = "8 word"
type_synonym size_t = "64 word"
type_synonym uint64_t = "64 word"
type_synonym int64_t = "64 word"

datatype error = AssertFailed | OutOfBounds | NonFinite

definition and_then :: "error + 'a \<Rightarrow> ('a \<Rightarrow> error + 'b) \<Rightarrow> error + 'b" where
  "and_then m f = (case m of Inl e \<Rightarrow> Inl e | Inr x \<Rightarrow> f x)"

section \<open>The ring buffer \<open>circlebuf\<close>\<close>

subsection \<open>Memory\<close>

text \<open>
  \<open>cb->data\<close> points to a block obtained from \<open>brealloc\<close>. The field \<open>data\<close>
  holds the content of that block, one cell per byte; its length is the
  allocated size and the null pointer is the empty block. A cell that was
  allocated and never written is \<open>None\<close>. An offset into a block is a natural
  number; a copy that leaves its source or its destination block is
  \<open>OutOfBounds\<close>. \<open>brealloc\<close> is taken to succeed (in libobs it ends the
  process when memory runs out).
\<close>

type_synonym cell = "byte option"

record circlebuf =
  data :: "cell list"
  size_cb :: size_t
  start_pos :: size_t
  end_pos :: size_t
  capacity :: size_t

definition mem_read :: "cell list \<Rightarrow> nat \<Rightarrow> nat \<Rightarrow> error + cell list" where
  "mem_read mem off n =
     (if off + n \<le> length mem then Inr (take n (drop off mem)) else Inl OutOfBounds)"

definition mem_write :: "cell list \<Rightarrow> nat \<Rightarrow> cell list \<Rightarrow> error + cell list" where
  "mem_write mem off xs =
     (if off + length xs \<le> length mem
      then Inr (take off mem @ xs @ drop (off + length xs) mem)
      else Inl OutOfBounds)"

text \<open>\<open>memcpy dst d src s n\<close> is \<open>memcpy(dst + d, src + s, n)\<close>; it returns the
  destination block.\<close>

definition memcpy :: "cell list \<Rightarrow> nat \<Rightarrow> cell list \<Rightarrow> nat \<Rightarrow> size_t \<Rightarrow> error + cell list" where
  "memcpy dst d src s n = and_then (mem_read src s (unat n)) (\<lambda>xs. mem_write dst d xs)"

text \<open>\<open>memmove mem d s n\<close> is \<open>memmove(mem + d, mem + s, n)\<close> inside one block:
  the source range is read before the destination is written.\<close>

definition memmove :: "cell list \<Rightarrow> nat \<Rightarrow> nat \<Rightarrow> size_t \<Rightarrow> error + cell list" where
  "memmove mem d s n = and_then (mem_read mem s (unat n)) (\<lambda>xs. mem_write mem d xs)"

definition memset :: "cell list \<Rightarrow> nat \<Rightarrow> byte \<Rightarrow> size_t \<Rightarrow> error + cell list" where
  "memset dst d c n = mem_write dst d (replicate (unat n) (Some c))"

definition brealloc :: "cell list \<Rightarrow> size_t \<Rightarrow> cell list" where
  "brealloc mem n = take (unat n) mem @ replicate (unat n - length mem) None"

subsection \<open>Operations\<close>

text \<open>
  Each function takes the struct and returns the updated struct. The source
  parameter \<open>data\<close> of the push functions is named \<open>src\<close> (a block of
  initialised bytes), since \<open>data\<close> is the field, and the parameter \<open>size\<close>
  is \<open>size'\<close>. The destination \<open>data\<close> of
  peek and pop is \<open>dst\<close>: \<open>False\<close> is the null pointer, and the bytes copied
  out are returned (the destination is taken to have room for them).
\<close>

definition circlebuf_init :: "circlebuf \<Rightarrow> circlebuf" where
  "circlebuf_init cb = \<lparr>data = [], size_cb = 0, start_pos = 0, end_pos = 0, capacity = 0\<rparr>"

definition circlebuf_free :: "circlebuf \<Rightarrow> circlebuf" where
  "circlebuf_free cb = \<lparr>data = [], size_cb = 0, start_pos = 0, end_pos = 0, capacity = 0\<rparr>"

definition circlebuf_reorder_data :: "circlebuf \<Rightarrow> size_t \<Rightarrow> error + circlebuf" where
  "circlebuf_reorder_data cb new_capacity =
     (if size_cb cb = 0 \<or> start_pos cb = 0 \<or> end_pos cb > start_pos cb then Inr cb
      else
        let difference = new_capacity - capacity cb in
        and_then (memmove (data cb) (unat (start_pos cb) + unat difference)
                    (unat (start_pos cb)) (capacity cb - start_pos cb))
          (\<lambda>d. Inr (cb\<lparr>data := d, start_pos := start_pos cb + difference\<rparr>)))"

definition circlebuf_ensure_capacity :: "circlebuf \<Rightarrow> error + circlebuf" where
  "circlebuf_ensure_capacity cb =
     (if size_cb cb \<le> capacity cb then Inr cb
      else
        let new_capacity = capacity cb * 2;
            new_capacity = (if size_cb cb > new_capacity then size_cb cb else new_capacity)
        in and_then
             (circlebuf_reorder_data (cb\<lparr>data := brealloc (data cb) new_capacity\<rparr>) new_capacity)
             (\<lambda>cb. Inr (cb\<lparr>capacity := new_capacity\<rparr>)))"

definition circlebuf_reserve :: "circlebuf \<Rightarrow> size_t \<Rightarrow> error + circlebuf" where
  "circlebuf_reserve cb capacity' =
     (if capacity' \<le> capacity cb then Inr cb
      else and_then
             (circlebuf_reorder_data (cb\<lparr>data := brealloc (data cb) capacity'\<rparr>) capacity')
             (\<lambda>cb. Inr (cb\<lparr>capacity := capacity'\<rparr>)))"

definition circlebuf_upsize :: "circlebuf \<Rightarrow> size_t \<Rightarrow> error + circlebuf" where
  "circlebuf_upsize cb size' =
     (let add_size = size' - size_cb cb;
          new_end_pos = end_pos cb + add_size
      in if size' \<le> size_cb cb then Inr cb
         else and_then (circlebuf_ensure_capacity (cb\<lparr>size_cb := size'\<rparr>)) (\<lambda>cb.
           if new_end_pos > capacity cb then
             let back_size = capacity cb - end_pos cb;
                 loop_size = add_size - back_size
             in and_then (if back_size \<noteq> 0
                          then memset (data cb) (unat (end_pos cb)) 0 back_size
                          else Inr (data cb)) (\<lambda>d.
                and_then (memset d 0 0 loop_size) (\<lambda>d.
                Inr (cb\<lparr>data := d, end_pos := new_end_pos - capacity cb\<rparr>)))
           else and_then (memset (data cb) (unat (end_pos cb)) 0 add_size) (\<lambda>d.
                Inr (cb\<lparr>data := d, end_pos := new_end_pos\<rparr>))))"

definition circlebuf_place :: "circlebuf \<Rightarrow> size_t \<Rightarrow> byte list \<Rightarrow> size_t \<Rightarrow> error + circlebuf" where
  "circlebuf_place cb position src size' =
     (let end_point = position + size' in
      and_then (if end_point > size_cb cb then circlebuf_upsize cb end_point else Inr cb) (\<lambda>cb.
        let position = position + start_pos cb;
            position = (if position \<ge> capacity cb then position - capacity cb else position);
            data_end_pos = position + size'
        in if data_end_pos > capacity cb then
             let back_size = data_end_pos - capacity cb;
                 loop_size = size' - back_size
             in and_then (memcpy (data cb) (unat position) (map Some src) 0 loop_size) (\<lambda>d.
                and_then (memcpy d 0 (map Some src) (unat loop_size) back_size) (\<lambda>d.
                Inr (cb\<lparr>data := d\<rparr>)))
           else and_then (memcpy (data cb) (unat position) (map Some src) 0 size') (\<lambda>d.
                Inr (cb\<lparr>data := d\<rparr>))))"

definition circlebuf_push_back :: "circlebuf \<Rightarrow> byte list \<Rightarrow> size_t \<Rightarrow> error + circlebuf" where
  "circlebuf_push_back cb src size' =
     (let new_end_pos = end_pos cb + size' in
      and_then (circlebuf_ensure_capacity (cb\<lparr>size_cb := size_cb cb + size'\<rparr>)) (\<lambda>cb.
        if new_end_pos > capacity cb then
          let back_size = capacity cb - end_pos cb;
              loop_size = size' - back_size
          in and_then (if back_size \<noteq> 0
                       then memcpy (data cb) (unat (end_pos cb)) (map Some src) 0 back_size
                       else Inr (data cb)) (\<lambda>d.
             and_then (memcpy d 0 (map Some src) (unat back_size) loop_size) (\<lambda>d.
             Inr (cb\<lparr>data := d, end_pos := new_end_pos - capacity cb\<rparr>)))
        else and_then (memcpy (data cb) (unat (end_pos cb)) (map Some src) 0 size') (\<lambda>d.
             Inr (cb\<lparr>data := d, end_pos := new_end_pos\<rparr>))))"

definition circlebuf_push_front :: "circlebuf \<Rightarrow> byte list \<Rightarrow> size_t \<Rightarrow> error + circlebuf" where
  "circlebuf_push_front cb src size' =
     and_then (circlebuf_ensure_capacity (cb\<lparr>size_cb := size_cb cb + size'\<rparr>)) (\<lambda>cb.
       if size_cb cb = size' then
         and_then (memcpy (data cb) 0 (map Some src) 0 size') (\<lambda>d.
         Inr (cb\<lparr>data := d, start_pos := 0, end_pos := size'\<rparr>))
       else if start_pos cb < size' then
         let back_size = size' - start_pos cb in
         and_then (if start_pos cb \<noteq> 0
                   then memcpy (data cb) 0 (map Some src) (unat back_size) (start_pos cb)
                   else Inr (data cb)) (\<lambda>d.
         let start_pos' = capacity cb - back_size in
         and_then (memcpy d (unat start_pos') (map Some src) 0 back_size) (\<lambda>d.
         Inr (cb\<lparr>data := d, start_pos := start_pos'\<rparr>)))
       else
         let start_pos' = start_pos cb - size' in
         and_then (memcpy (data cb) (unat start_pos') (map Some src) 0 size') (\<lambda>d.
         Inr (cb\<lparr>data := d, start_pos := start_pos'\<rparr>)))"

definition circlebuf_push_back_zero :: "circlebuf \<Rightarrow> size_t \<Rightarrow> error + circlebuf" where
  "circlebuf_push_back_zero cb size' =
     (let new_end_pos = end_pos cb + size' in
      and_then (circlebuf_ensure_capacity (cb\<lparr>size_cb := size_cb cb + size'\<rparr>)) (\<lambda>cb.
        if new_end_pos > capacity cb then
          let back_size = capacity cb - end_pos cb;
              loop_size = size' - back_size
          in and_then (if back_size \<noteq> 0
                       then memset (data cb) (unat (end_pos cb)) 0 back_size
                       else Inr (data cb)) (\<lambda>d.
             and_then (memset d 0 0 loop_size) (\<lambda>d.
             Inr (cb\<lparr>data := d, end_pos := new_end_pos - capacity cb\<rparr>)))
        else and_then (memset (data cb) (unat (end_pos cb)) 0 size') (\<lambda>d.
             Inr (cb\<lparr>data := d, end_pos := new_end_pos\<rparr>))))"

definition circlebuf_push_front_zero :: "circlebuf \<Rightarrow> size_t \<Rightarrow> error + circlebuf" where
  "circlebuf_push_front_zero cb size' =
     and_then (circlebuf_ensure_capacity (cb\<lparr>size_cb := size_cb cb + size'\<rparr>)) (\<lambda>cb.
       if size_cb cb = size' then
         and_then (memset (data cb) 0 0 size') (\<lambda>d.
         Inr (cb\<lparr>data := d, start_pos := 0, end_pos := size'\<rparr>))
       else if start_pos cb < size' then
         let back_size = size' - start_pos cb in
         and_then (if start_pos cb \<noteq> 0
                   then memset (data cb) 0 0 (start_pos cb)
                   else Inr (data cb)) (\<lambda>d.
         let start_pos' = capacity cb - back_size in
         and_then (memset d (unat start_pos') 0 back_size) (\<lambda>d.
         Inr (cb\<lparr>data := d, start_pos := start_pos'\<rparr>)))
       else
         let start_pos' = start_pos cb - size' in
         and_then (memset (data cb) (unat start_pos') 0 size') (\<lambda>d.
         Inr (cb\<lparr>data := d, start_pos := start_pos'\<rparr>)))"

definition circlebuf_peek_front :: "circlebuf \<Rightarrow> bool \<Rightarrow> size_t \<Rightarrow> error + cell list option" where
  "circlebuf_peek_front cb dst size' =
     (if \<not> size' \<le> size_cb cb then Inl AssertFailed
      else if dst then
        let start_size = capacity cb - start_pos cb in
        if start_size < size' then
          and_then (mem_read (data cb) (unat (start_pos cb)) (unat start_size)) (\<lambda>a.
          and_then (mem_read (data cb) 0 (unat (size' - start_size))) (\<lambda>b.
          Inr (Some (a @ b))))
        else and_then (mem_read (data cb) (unat (start_pos cb)) (unat size')) (\<lambda>a.
             Inr (Some a))
      else Inr None)"

text \<open>In the last branch the source computes the pointer
  \<open>cb->data + cb->end_pos - size\<close>; the offset \<open>end_pos - size\<close> is taken in
  \<open>size_t\<close>, so a \<open>size\<close> beyond \<open>end_pos\<close> gives an offset outside
  every block.\<close>

definition circlebuf_peek_back :: "circlebuf \<Rightarrow> bool \<Rightarrow> size_t \<Rightarrow> error + cell list option" where
  "circlebuf_peek_back cb dst size' =
     (if \<not> size' \<le> size_cb cb then Inl AssertFailed
      else if dst then
        let back_size = (if end_pos cb \<noteq> 0 then end_pos cb else capacity cb) in
        if back_size < size' then
          let front_size = size' - back_size;
              new_end_pos = capacity cb - front_size
          in and_then (mem_read (data cb) 0 (unat back_size)) (\<lambda>b.
             and_then (mem_read (data cb) (unat new_end_pos) (unat front_size)) (\<lambda>a.
             Inr (Some (a @ b))))
        else and_then (mem_read (data cb) (unat (end_pos cb - size')) (unat size')) (\<lambda>a.
             Inr (Some a))
      else Inr None)"

definition circlebuf_pop_front :: "circlebuf \<Rightarrow> bool \<Rightarrow> size_t \<Rightarrow> error + circlebuf \<times> cell list option" where
  "circlebuf_pop_front cb dst size' =
     and_then (circlebuf_peek_front cb dst size') (\<lambda>out.
       let cb = cb\<lparr>size_cb := size_cb cb - size'\<rparr> in
       if size_cb cb = 0 then Inr (cb\<lparr>start_pos := 0, end_pos := 0\<rparr>, out)
       else
         let cb = cb\<lparr>start_pos := start_pos cb + size'\<rparr> in
         Inr (if start_pos cb \<ge> capacity cb
              then cb\<lparr>start_pos := start_pos cb - capacity cb\<rparr> else cb, out))"

definition circlebuf_pop_back :: "circlebuf \<Rightarrow> bool \<Rightarrow> size_t \<Rightarrow> error + circlebuf \<times> cell list option" where
  "circlebuf_pop_back cb dst size' =
     and_then (circlebuf_peek_back cb dst size') (\<lambda>out.
       let cb = cb\<lparr>size_cb := size_cb cb - size'\<rparr> in
       if size_cb cb = 0 then Inr (cb\<lparr>start_pos := 0, end_pos := 0\<rparr>, out)
       else if end_pos cb \<le> size'
         then Inr (cb\<lparr>end_pos := capacity cb - (size' - end_pos cb)\<rparr>, out)
         else Inr (cb\<lparr>end_pos := end_pos cb - size'\<rparr>, out))"

text \<open>\<open>circlebuf_data\<close> returns a pointer into the block: \<open>None\<close> is \<open>NULL\<close>,
  \<open>Some offset\<close> is \<open>cb->data + offset\<close>.\<close>

definition circlebuf_data :: "circlebuf \<Rightarrow> size_t \<Rightarrow> size_t option" where
  "circlebuf_data cb idx =
     (let offset = start_pos cb + idx in
      if idx \<ge> size_cb cb then None
      else Some (if offset \<ge> capacity cb then offset - capacity cb else offset))"

section \<open>Audio synchronisation: \<open>WAVSource::get_audio_sync\<close>\<close>

text \<open>
  \<open>static constexpr uint64_t MAX_TS_DELTA = 1000000000ull * 16u\<close>
\<close>

definition MAX_TS_DELTA :: uint64_t where
  "MAX_TS_DELTA = 1000000000 * 16"

text \<open>
  \<open>m_audio_ts\<close> is \<open>uint64_t\<close> and \<open>m_ts_offset\<close> is \<open>int64_t\<close>: their sum
  converts the offset to \<open>uint64_t\<close> and wraps modulo \<open>2^64\<close>. Both types are
  64-bit words here: a conversion between them keeps the bits, \<open>uint\<close> reads
  a word as \<open>uint64_t\<close> and \<open>sint\<close> reads it as \<open>int64_t\<close>.
\<close>

definition get_audio_sync :: "uint64_t \<Rightarrow> int64_t \<Rightarrow> uint64_t \<Rightarrow> int64_t" where
  "get_audio_sync m_audio_ts m_ts_offset ts =
     (let audio_ts = m_audio_ts + m_ts_offset;
          delta = max audio_ts ts - min audio_ts ts;
          delta = min delta MAX_TS_DELTA
      in if audio_ts < ts then - delta else delta)"

section \<open>Decibels and temporal smoothing: \<open>dbfs\<close>, \<open>get_gravity\<close>\<close>

definition std_log10 :: "real \<Rightarrow> error + real" where
  "std_log10 x = (if 0 < x then Inr (log 10 x) else Inl NonFinite)"

definition float_div :: "real \<Rightarrow> real \<Rightarrow> error + real" where
  "float_div a b = (if b = 0 then Inl NonFinite else Inr (a / b))"

text \<open>
  \<open>DB_MIN\<close> is declared in the class (\<open>static const float DB_MIN\<close>) and
  defined outside the header, so it is a parameter here.
\<close>

definition dbfs :: "real \<Rightarrow> real \<Rightarrow> error + real" where
  "dbfs DB_MIN mag =
     (if mag > 0 then and_then (std_log10 mag) (\<lambda>l. Inr (20 * l))
      else Inr DB_MIN)"

datatype TSmoothingMode = NONE | EXPONENTIAL | TVEXPONENTIAL

text \<open>
  Modelled from the spec: \<open>lerp\<close> is declared in \<open>module.hpp\<close>, which is not
  among the sources; the spec uses it as the linear interpolation
  \<open>lerp(0, 5 k, gravity)\<close> between its first two arguments.
\<close>

definition lerp :: "real \<Rightarrow> real \<Rightarrow> real \<Rightarrow> real" where
  "lerp a b t = a + (b - a) * t"

definition gravity_denom :: real where
  "gravity_denom = 0.03868924705242879469662125316986"

definition gravity_hi :: real where
  "gravity_hi = gravity_denom * 5"

definition gravity_lo :: real where
  "gravity_lo = 0"

definition get_gravity :: "TSmoothingMode \<Rightarrow> real \<Rightarrow> real \<Rightarrow> error + real" where
  "get_gravity m_tsmoothing m_gravity seconds =
     (if m_tsmoothing = NONE \<or> m_gravity \<le> 0 then Inr 0
      else if m_tsmoothing = TVEXPONENTIAL
        then and_then (float_div (- seconds) (lerp gravity_lo gravity_hi m_gravity))
               (\<lambda>q. Inr (exp q))
        else Inr m_gravity)"

subsection \<open>\<open>get_gravity\<close> in binary32\<close>

text \<open>
  Over the reals the rounding of \<open>float\<close> is not seen. Whether the
  denominator of \<open>get_gravity\<close> is zero depends on it, so \<open>get_gravity\<close> is
  given a second time with every operation rounded to binary32: IEEE 754
  single precision, rounding to nearest with ties to even and gradual
  underflow, which is the default mode of the processor. A \<open>float\<close> is the
  real number it stands for, and a result that is infinite or not a number
  is the error \<open>NonFinite\<close>.

  \<open>round_half_even\<close> is the nearest integer, the even one of two that are
  equally near. \<open>f32_exponent\<close> is the exponent of the binade of \<open>x\<close>, and
  \<open>- 126\<close> for all subnormal numbers; the binary32 numbers of that exponent
  are the multiples of \<open>2 ^ (f32_exponent x - 23)\<close>, the smallest spacing being
  \<open>2 ^ - 149\<close>. \<open>f32_round\<close> rounds a real number to binary32; a result of
  magnitude \<open>2 ^ 128\<close> or more is infinite.
\<close>

definition round_half_even :: "real \<Rightarrow> int" where
  "round_half_even y =
     (let f = \<lfloor>y\<rfloor> in
      if y - of_int f < 1 / 2 then f
      else if 1 / 2 < y - of_int f then f + 1
      else if even f then f else f + 1)"

definition f32_exponent :: "real \<Rightarrow> int" where
  "f32_exponent x = max \<lfloor>log 2 \<bar>x\<bar>\<rfloor> (- 126)"

definition f32_round :: "real \<Rightarrow> error + real" where
  "f32_round x =
     (if x = 0 then Inr 0
      else let ulp = 2 powr of_int (f32_exponent x - 23);
               r = ulp * of_int (round_half_even (x / ulp))
           in if \<bar>r\<bar> < 2 ^ 128 then Inr r else Inl NonFinite)"

definition f32_add :: "real \<Rightarrow> real \<Rightarrow> error + real" where
  "f32_add a b = f32_round (a + b)"

definition f32_sub :: "real \<Rightarrow> real \<Rightarrow> error + real" where
  "f32_sub a b = f32_round (a - b)"

definition f32_mul :: "real \<Rightarrow> real \<Rightarrow> error + real" where
  "f32_mul a b = f32_round (a * b)"

definition f32_div :: "real \<Rightarrow> real \<Rightarrow> error + real" where
  "f32_div a b = (if b = 0 then Inl NonFinite else f32_round (a / b))"

text \<open>
  \<open>std::exp\<close> on a \<open>float\<close> is the exponential rounded to binary32.
\<close>

definition std_exp_f32 :: "real \<Rightarrow> error + real" where
  "std_exp_f32 q = f32_round (exp q)"

text \<open>
  Modelled from the spec: \<open>lerp\<close> is declared in \<open>module.hpp\<close>, which is not
  among the sources; the spec uses it as the linear interpolation between its
  first two arguments, here \<open>a + (b - a) * t\<close> in \<open>float\<close> arithmetic.
\<close>

definition lerp_f32 :: "real \<Rightarrow> real \<Rightarrow> real \<Rightarrow> error + real" where
  "lerp_f32 a b t =
     and_then (f32_sub b a) (\<lambda>d.
     and_then (f32_mul d t) (\<lambda>p.
     f32_add a p))"

text \<open>
  \<open>gravity_denominator_f32\<close> is the denominator \<open>lerp(lo, hi, m_gravity)\<close> of
  the source: \<open>denom\<close> is the decimal literal rounded to \<open>float\<close>, \<open>hi\<close> is
  \<open>denom * 5.0f\<close> and \<open>lo\<close> is \<open>0.0f\<close>.
\<close>

definition gravity_denominator_f32 :: "real \<Rightarrow> error + real" where
  "gravity_denominator_f32 m_gravity =
     and_then (f32_round gravity_denom) (\<lambda>denom.
     and_then (f32_mul denom 5) (\<lambda>hi.
     lerp_f32 0 hi m_gravity))"

definition get_gravity_f32 :: "TSmoothingMode \<Rightarrow> real \<Rightarrow> real \<Rightarrow> error + real" where
  "get_gravity_f32 m_tsmoothing m_gravity seconds =
     (if m_tsmoothing = NONE \<or> m_gravity \<le> 0 then Inr 0
      else if m_tsmoothing = TVEXPONENTIAL
        then and_then (gravity_denominator_f32 m_gravity) (\<lambda>d.
             and_then (f32_div (- seconds) d) (\<lambda>q.
             std_exp_f32 q))
        else Inr m_gravity)"

section \<open>Well-formed ring buffers and their content\<close>

text \<open>
  The fields of a ring buffer, read as natural numbers: \<open>layout cap start end s\<close>
  says that \<open>s\<close> bytes are stored from offset \<open>start\<close> on, circularly in a block
  of \<open>cap\<close> bytes, and that \<open>end\<close> is the offset after the last of them (\<open>cap\<close>
  itself, not 0, when the stored bytes end at the end of the block). An empty
  buffer has both offsets at 0.
\<close>

definition layout :: "nat \<Rightarrow> nat \<Rightarrow> nat \<Rightarrow> nat \<Rightarrow> bool" where
  "layout cap start end' s \<longleftrightarrow>
     s \<le> cap \<and>
     (if s = 0 then start = 0 \<and> end' = 0
      else start < cap \<and> end' = (if cap < start + s then start + s - cap else start + s))"

text \<open>
  A well-formed buffer: the allocated block has \<open>capacity\<close> bytes and the
  fields are laid out as above. All states that the operations produce from
  \<open>circlebuf_init\<close> are well-formed.
\<close>

definition cb_wf :: "circlebuf \<Rightarrow> bool" where
  "cb_wf cb \<longleftrightarrow>
     length (data cb) = unat (capacity cb) \<and>
     layout (unat (capacity cb)) (unat (start_pos cb)) (unat (end_pos cb)) (unat (size_cb cb))"

text \<open>
  The logical content: the \<open>size\<close> bytes from \<open>start_pos\<close> on, offsets taken
  modulo \<open>capacity\<close>.
\<close>

definition cb_contents :: "circlebuf \<Rightarrow> cell list" where
  "cb_contents cb =
     map (\<lambda>i. data cb ! ((unat (start_pos cb) + i) mod unat (capacity cb)))
       [0..<unat (size_cb cb)]"

text \<open>
  \<open>size_t\<close> arithmetic wraps modulo \<open>2^64\<close>. \<open>cb_fits cb n\<close> bounds the
  capacity and a request of \<open>n\<close> more bytes so that no sum of sizes or offsets
  in an operation wraps.
\<close>

definition cb_fits :: "circlebuf \<Rightarrow> nat \<Rightarrow> bool" where
  "cb_fits cb n \<longleftrightarrow> 2 * unat (capacity cb) + n < 2 ^ 63"

section \<open>Operations as data, and the byte queue they implement\<close>

text \<open>
  One constructor per function of the ring buffer, with its arguments.
  \<open>exec\<close> calls the function and returns the buffer and, for peek and pop, the
  bytes copied out. \<open>DataAt\<close> calls \<open>circlebuf_data\<close> and reads the byte the
  returned pointer points to. \<open>run\<close> executes a sequence of operations and
  stops at the first error.
\<close>

datatype cb_op =
    Init
  | Free
  | Reserve size_t
  | PushBack "byte list" size_t
  | PushFront "byte list" size_t
  | PushBackZero size_t
  | PushFrontZero size_t
  | Place size_t "byte list" size_t
  | PeekFront bool size_t
  | PeekBack bool size_t
  | PopFront bool size_t
  | PopBack bool size_t
  | DataAt size_t

fun exec :: "cb_op \<Rightarrow> circlebuf \<Rightarrow> error + circlebuf \<times> cell list option" where
  "exec Init cb = Inr (circlebuf_init cb, None)"
| "exec Free cb = Inr (circlebuf_free cb, None)"
| "exec (Reserve c) cb = and_then (circlebuf_reserve cb c) (\<lambda>cb'. Inr (cb', None))"
| "exec (PushBack src n) cb = and_then (circlebuf_push_back cb src n) (\<lambda>cb'. Inr (cb', None))"
| "exec (PushFront src n) cb = and_then (circlebuf_push_front cb src n) (\<lambda>cb'. Inr (cb', None))"
| "exec (PushBackZero n) cb = and_then (circlebuf_push_back_zero cb n) (\<lambda>cb'. Inr (cb', None))"
| "exec (PushFrontZero n) cb = and_then (circlebuf_push_front_zero cb n) (\<lambda>cb'. Inr (cb', None))"
| "exec (Place pos src n) cb = and_then (circlebuf_place cb pos src n) (\<lambda>cb'. Inr (cb', None))"
| "exec (PeekFront dst n) cb = and_then (circlebuf_peek_front cb dst n) (\<lambda>out. Inr (cb, out))"
| "exec (PeekBack dst n) cb = and_then (circlebuf_peek_back cb dst n) (\<lambda>out. Inr (cb, out))"
| "exec (PopFront dst n) cb = circlebuf_pop_front cb dst n"
| "exec (PopBack dst n) cb = circlebuf_pop_back cb dst n"
| "exec (DataAt idx) cb =
     (case circlebuf_data cb idx of
        None \<Rightarrow> Inr (cb, None)
      | Some offset \<Rightarrow> and_then (mem_read (data cb) (unat offset) 1) (\<lambda>b. Inr (cb, Some b)))"

fun run :: "cb_op list \<Rightarrow> circlebuf \<Rightarrow> error + circlebuf \<times> cell list option list" where
  "run [] cb = Inr (cb, [])"
| "run (x # xs) cb =
     and_then (exec x cb) (\<lambda>(cb', out).
     and_then (run xs cb') (\<lambda>(cb'', outs). Inr (cb'', out # outs)))"

text \<open>
  The reference: a double-ended queue of bytes, as a list with the front
  first. Pushing at the back appends, pushing at the front prepends; a pop or
  peek of \<open>n\<close> bytes at the front gives the first \<open>n\<close> bytes, at the back the
  last \<open>n\<close> bytes, in the order they have in the queue; \<open>Place\<close> overwrites
  from an offset on, after padding the queue with zero bytes up to the end of
  the written range. \<open>deque_pre\<close> is the precondition of an operation: a peek
  or pop asks for at most the current size, and a source block has the
  \<open>size\<close> bytes that are to be copied.
\<close>

fun deque_pre :: "cb_op \<Rightarrow> cell list \<Rightarrow> bool" where
  "deque_pre (PushBack src n) q = (unat n \<le> length src)"
| "deque_pre (PushFront src n) q = (unat n \<le> length src)"
| "deque_pre (Place pos src n) q = (unat n \<le> length src)"
| "deque_pre (PeekFront dst n) q = (unat n \<le> length q)"
| "deque_pre (PeekBack dst n) q = (unat n \<le> length q)"
| "deque_pre (PopFront dst n) q = (unat n \<le> length q)"
| "deque_pre (PopBack dst n) q = (unat n \<le> length q)"
| "deque_pre _ q = True"

fun deque_step :: "cb_op \<Rightarrow> cell list \<Rightarrow> cell list \<times> cell list option" where
  "deque_step Init q = ([], None)"
| "deque_step Free q = ([], None)"
| "deque_step (Reserve c) q = (q, None)"
| "deque_step (PushBack src n) q = (q @ map Some (take (unat n) src), None)"
| "deque_step (PushFront src n) q = (map Some (take (unat n) src) @ q, None)"
| "deque_step (PushBackZero n) q = (q @ replicate (unat n) (Some 0), None)"
| "deque_step (PushFrontZero n) q = (replicate (unat n) (Some 0) @ q, None)"
| "deque_step (Place pos src n) q =
     (let padded = q @ replicate (unat pos + unat n - length q) (Some 0)
      in (take (unat pos) padded @ map Some (take (unat n) src) @
          drop (unat pos + unat n) padded, None))"
| "deque_step (PeekFront dst n) q = (q, if dst then Some (take (unat n) q) else None)"
| "deque_step (PeekBack dst n) q =
     (q, if dst then Some (drop (length q - unat n) q) else None)"
| "deque_step (PopFront dst n) q =
     (drop (unat n) q, if dst then Some (take (unat n) q) else None)"
| "deque_step (PopBack dst n) q =
     (take (length q - unat n) q, if dst then Some (drop (length q - unat n) q) else None)"
| "deque_step (DataAt idx) q = (q, if unat idx < length q then Some [q ! unat idx] else None)"

fun deque_run :: "cb_op list \<Rightarrow> cell list \<Rightarrow> cell list \<times> cell list option list" where
  "deque_run [] q = (q, [])"
| "deque_run (x # xs) q =
     (let (q', out) = deque_step x q; (q'', outs) = deque_run xs q' in (q'', out # outs))"

fun deque_valid :: "cb_op list \<Rightarrow> cell list \<Rightarrow> bool" where
  "deque_valid [] q = True"
| "deque_valid (x # xs) q = (deque_pre x q \<and> deque_valid xs (fst (deque_step x q)))"

text \<open>
  The bytes an operation asks the buffer to make room for, and their sum over
  a sequence; the sum bounds every size and capacity the sequence reaches.
\<close>

fun op_cost :: "cb_op \<Rightarrow> nat" where
  "op_cost (Reserve c) = unat c"
| "op_cost (PushBack src n) = unat n"
| "op_cost (PushFront src n) = unat n"
| "op_cost (PushBackZero n) = unat n"
| "op_cost (PushFrontZero n) = unat n"
| "op_cost (Place pos src n) = unat pos + unat n"
| "op_cost _ = 0"

definition trace_cost :: "cb_op list \<Rightarrow> nat" where
  "trace_cost ops = sum_list (map op_cost ops)"

text \<open>
  The queue operations proper (push, pop and peek at either end), and the
  bytes they push and pop.
\<close>

fun is_queue_op :: "cb_op \<Rightarrow> bool" where
  "is_queue_op (PushBack src n) = True"
| "is_queue_op (PushFront src n) = True"
| "is_queue_op (PeekFront dst n) = True"
| "is_queue_op (PeekBack dst n) = True"
| "is_queue_op (PopFront dst n) = True"
| "is_queue_op (PopBack dst n) = True"
| "is_queue_op _ = False"

fun pushed :: "cb_op \<Rightarrow> nat" where
  "pushed (PushBack src n) = unat n"
| "pushed (PushFront src n) = unat n"
| "pushed _ = 0"

fun popped :: "cb_op \<Rightarrow> nat" where
  "popped (PopFront dst n) = unat n"
| "popped (PopBack dst n) = unat n"
| "popped _ = 0"

definition pushed_total :: "cb_op list \<Rightarrow> nat" where
  "pushed_total ops = sum_list (map pushed ops)"

definition popped_total :: "cb_op list \<Rightarrow> nat" where
  "popped_total ops = sum_list (map popped ops)"

section \<open>Auxiliary notions for the proofs\<close>

text \<open>
  \<open>store\<close> is a write that stays inside the block, \<open>ring_store\<close> a write that
  continues at offset 0 when it reaches the end of the block, and \<open>phys\<close> the
  offset of a logical index.
\<close>

definition store :: "cell list \<Rightarrow> nat \<Rightarrow> cell list \<Rightarrow> cell list" where
  "store m off xs = take off m @ xs @ drop (off + length xs) m"

definition ring_store :: "cell list \<Rightarrow> nat \<Rightarrow> cell list \<Rightarrow> cell list" where
  "ring_store d p xs =
     (if length d < p + length xs
      then store (store d p (take (length d - p) xs)) 0 (drop (length d - p) xs)
      else store d p xs)"

definition phys :: "nat \<Rightarrow> nat \<Rightarrow> nat \<Rightarrow> nat" where
  "phys cap start i = (if start + i < cap then start + i else start + i - cap)"

text \<open>
  The copying and the zero-filling variants of the push functions differ only
  in the call that writes: \<open>memcpy\<close> from the source block or \<open>memset\<close>.
  \<open>push_back_with\<close> and \<open>push_front_with\<close> are the two function bodies with
  that call as a parameter; \<open>writes wr xs\<close> says that the call writes the
  cells \<open>xs\<close>.
\<close>

type_synonym writer = "cell list \<Rightarrow> nat \<Rightarrow> nat \<Rightarrow> size_t \<Rightarrow> error + cell list"

definition writes :: "writer \<Rightarrow> cell list \<Rightarrow> bool" where
  "writes wr xs \<longleftrightarrow>
     (\<forall>dst d s k. s + unat k \<le> length xs \<longrightarrow> d + unat k \<le> length dst \<longrightarrow>
        wr dst d s k = Inr (store dst d (take (unat k) (drop s xs))))"

definition push_back_with :: "writer \<Rightarrow> circlebuf \<Rightarrow> size_t \<Rightarrow> error + circlebuf" where
  "push_back_with wr cb size' =
     (let new_end_pos = end_pos cb + size' in
      and_then (circlebuf_ensure_capacity (cb\<lparr>size_cb := size_cb cb + size'\<rparr>)) (\<lambda>cb.
        if new_end_pos > capacity cb then
          let back_size = capacity cb - end_pos cb;
              loop_size = size' - back_size
          in and_then (if back_size \<noteq> 0
                       then wr (data cb) (unat (end_pos cb)) 0 back_size
                       else Inr (data cb)) (\<lambda>d.
             and_then (wr d 0 (unat back_size) loop_size) (\<lambda>d.
             Inr (cb\<lparr>data := d, end_pos := new_end_pos - capacity cb\<rparr>)))
        else and_then (wr (data cb) (unat (end_pos cb)) 0 size') (\<lambda>d.
             Inr (cb\<lparr>data := d, end_pos := new_end_pos\<rparr>))))"

definition push_front_with :: "writer \<Rightarrow> circlebuf \<Rightarrow> size_t \<Rightarrow> error + circlebuf" where
  "push_front_with wr cb size' =
     and_then (circlebuf_ensure_capacity (cb\<lparr>size_cb := size_cb cb + size'\<rparr>)) (\<lambda>cb.
       if size_cb cb = size' then
         and_then (wr (data cb) 0 0 size') (\<lambda>d.
         Inr (cb\<lparr>data := d, start_pos := 0, end_pos := size'\<rparr>))
       else if start_pos cb < size' then
         let back_size = size' - start_pos cb in
         and_then (if start_pos cb \<noteq> 0
                   then wr (data cb) 0 (unat back_size) (start_pos cb)
                   else Inr (data cb)) (\<lambda>d.
         let start_pos' = capacity cb - back_size in
         and_then (wr d (unat start_pos') 0 back_size) (\<lambda>d.
         Inr (cb\<lparr>data := d, start_pos := start_pos'\<rparr>)))
       else
         let start_pos' = start_pos cb - size' in
         and_then (wr (data cb) (unat start_pos') 0 size') (\<lambda>d.
         Inr (cb\<lparr>data := d, start_pos := start_pos'\<rparr>)))"

section \<open>Basic facts\<close>

lemma and_then_Inr [simp]: "and_then (Inr x) f = f x"
  by (simp add: and_then_def)

lemma and_then_Inl [simp]: "and_then (Inl e) f = Inl e"
  by (simp add: and_then_def)

section \<open>\<open>get_audio_sync\<close>: the clamped signed delta\<close>

lemma max_ts_delta_uint: "uint MAX_TS_DELTA = 16000000000"
  by (simp add: MAX_TS_DELTA_def)

lemma two_63: "(2::int) ^ 63 = 9223372036854775808"
  by simp

lemma sint_small:
  fixes d :: "64 word"
  assumes "uint d \<le> 16000000000"
  shows "sint d = uint d"
proof -
  have "sint d = signed_take_bit 63 (uint d)" by (simp add: sint_uint)
  also have "\<dots> = uint d"
  proof (rule signed_take_bit_int_eq_self)
    have "0 \<le> uint d" by simp
    then show "- (2 ^ 63) \<le> uint d" unfolding two_63 by linarith
    show "uint d < 2 ^ 63" using assms unfolding two_63 by linarith
  qed
  finally show ?thesis .
qed

lemma sint_neg_small:
  fixes d :: "64 word"
  assumes "uint d \<le> 16000000000"
  shows "sint (- d) = - uint d"
proof -
  have "sint (- d) = signed_take_bit 63 (- sint d)" by (simp add: sint_word_minus)
  also have "\<dots> = signed_take_bit 63 (- uint d)" using assms by (simp add: sint_small)
  also have "\<dots> = - uint d"
  proof (rule signed_take_bit_int_eq_self)
    show "- (2 ^ 63) \<le> - uint d" using assms unfolding two_63 by linarith
    have "0 \<le> uint d" by simp
    then show "- uint d < 2 ^ 63" unfolding two_63 by linarith
  qed
  finally show ?thesis .
qed

lemma uint_min: "uint (min a b) = min (uint a) (uint (b::64 word))"
  by (simp add: min_def word_le_def)

lemma delta_clamped: "uint (min d MAX_TS_DELTA) \<le> 16000000000"
  by (simp add: uint_min max_ts_delta_uint)

text \<open>
  Claim C4. For every requested timestamp \<open>ts\<close>, \<open>get_audio_sync\<close> returns the
  signed delta between the end of the available audio, the \<open>uint64_t\<close> value
  \<open>m_audio_ts + m_ts_offset\<close> as the code computes it, and \<open>ts\<close>: the result
  (read as \<open>int64_t\<close>) is negative exactly when that end is earlier than
  \<open>ts\<close>, and its absolute value is the absolute difference of the two
  timestamps, clamped to \<open>MAX_TS_DELTA\<close>, which is 16 seconds in nanoseconds.
\<close>

theorem get_audio_sync_delta:
  "(sint (get_audio_sync m_audio_ts m_ts_offset ts) < 0 \<longleftrightarrow> m_audio_ts + m_ts_offset < ts) \<and>
   \<bar>sint (get_audio_sync m_audio_ts m_ts_offset ts)\<bar> =
     min \<bar>uint (m_audio_ts + m_ts_offset) - uint ts\<bar> (uint MAX_TS_DELTA) \<and>
   uint MAX_TS_DELTA = 16 * 10 ^ 9"
proof (cases "m_audio_ts + m_ts_offset < ts")
  case True
  let ?a = "m_audio_ts + m_ts_offset"
  let ?d = "min (ts - ?a) MAX_TS_DELTA"
  from True have le': "?a \<le> ts" by simp
  from True le' have r: "get_audio_sync m_audio_ts m_ts_offset ts = - ?d"
    by (simp add: get_audio_sync_def Let_def max_absorb2 min_absorb1)
  from True have lt: "uint ?a < uint ts" by (simp add: word_less_def)
  then have sub: "uint (ts - ?a) = uint ts - uint ?a"
    using uint_sub_lem [of ?a ts] by simp
  have s: "sint (- ?d) = - uint ?d"
    by (rule sint_neg_small) (rule delta_clamped)
  have pos: "0 < uint ?d" using lt sub by (simp add: uint_min max_ts_delta_uint)
  show ?thesis using True lt sub pos unfolding r s
    by (simp add: uint_min max_ts_delta_uint)
next
  case False
  let ?a = "m_audio_ts + m_ts_offset"
  let ?d = "min (?a - ts) MAX_TS_DELTA"
  from False have le': "ts \<le> ?a" by simp
  from False le' have r: "get_audio_sync m_audio_ts m_ts_offset ts = ?d"
    by (simp add: get_audio_sync_def Let_def max_absorb1 min_absorb2)
  from False have le: "uint ts \<le> uint ?a" by (simp add: word_less_def)
  then have sub: "uint (?a - ts) = uint ?a - uint ts"
    using uint_sub_lem [of ts ?a] by simp
  have s: "sint ?d = uint ?d"
    by (rule sint_small) (rule delta_clamped)
  have nn: "0 \<le> uint ?d" by simp
  show ?thesis using False le sub nn unfolding r s
    by (simp add: uint_min max_ts_delta_uint)
qed

text \<open>
  The sum in \<open>get_audio_sync\<close> is the integer sum of the audio timestamp and
  the signed offset whenever that sum is a \<open>uint64_t\<close> value.
\<close>

lemma audio_end_no_wrap:
  fixes a off :: "64 word"
  assumes "0 \<le> uint a + sint off" and "uint a + sint off < 2 ^ 64"
  shows "uint (a + off) = uint a + sint off"
proof -
  have "a + off = word_of_int (uint a + sint off)" by simp
  then have "uint (a + off) = take_bit 64 (uint a + sint off)"
    by (simp only: uint_word_of_int_eq) simp
  also have "\<dots> = uint a + sint off" using assms by (simp add: take_bit_int_eq_self)
  finally show ?thesis .
qed

section \<open>\<open>dbfs\<close> and \<open>get_gravity\<close>\<close>

text \<open>
  Claim C5. For every magnitude \<open>mag\<close>, \<open>dbfs\<close> is \<open>20 * log10(mag)\<close> when
  \<open>mag > 0\<close> and the floor constant \<open>DB_MIN\<close> when \<open>mag <= 0\<close>; in particular
  \<open>dbfs(0)\<close> is the floor constant. The logarithm is never taken of a
  non-positive number, so the result is never the error that stands for an
  infinite value.
\<close>

theorem dbfs_floor:
  "dbfs DB_MIN mag = Inr (if 0 < mag then 20 * log 10 mag else DB_MIN) \<and>
   dbfs DB_MIN 0 = Inr DB_MIN"
  by (simp add: dbfs_def std_log10_def)

lemma lerp_gravity_pos: "0 < g \<Longrightarrow> 0 < lerp gravity_lo gravity_hi g"
  by (simp add: lerp_def gravity_lo_def gravity_hi_def gravity_denom_def)

text \<open>
  Claim C7, as the code has it. \<open>get_gravity\<close> returns 0 when the smoothing
  mode is \<open>NONE\<close> or when \<open>m_gravity <= 0\<close>. For \<open>m_gravity > 0\<close> it returns
  \<open>m_gravity\<close> in mode \<open>EXPONENTIAL\<close> and
  \<open>exp(-seconds / lerp(0, 5 k, m_gravity))\<close> in mode \<open>TVEXPONENTIAL\<close>, where
  \<open>k\<close> is the constant \<open>denom\<close> of the source.
\<close>

theorem get_gravity_modes:
  "(m = NONE \<or> g \<le> 0 \<longrightarrow> get_gravity m g s = Inr 0) \<and>
   (m = EXPONENTIAL \<and> 0 < g \<longrightarrow> get_gravity m g s = Inr g) \<and>
   (m = TVEXPONENTIAL \<and> 0 < g \<longrightarrow>
      get_gravity m g s = Inr (exp (- s / lerp 0 (5 * gravity_denom) g)))"
  using lerp_gravity_pos [of g]
  by (auto simp: get_gravity_def float_div_def gravity_lo_def gravity_hi_def mult.commute)

theorem get_gravity_modes_witness:
  "get_gravity NONE (1 / 2) (1 / 60) = Inr 0 \<and>
   get_gravity TVEXPONENTIAL 0 (1 / 60) = Inr 0 \<and>
   get_gravity EXPONENTIAL (1 / 2) (1 / 60) = Inr (1 / 2) \<and>
   get_gravity TVEXPONENTIAL (1 / 2) (1 / 60) =
     Inr (exp (- (1 / 60) / lerp 0 (5 * gravity_denom) (1 / 2)))"
  using get_gravity_modes [of NONE "1 / 2" "1 / 60"]
    get_gravity_modes [of TVEXPONENTIAL 0 "1 / 60"]
    get_gravity_modes [of EXPONENTIAL "1 / 2" "1 / 60"]
    get_gravity_modes [of TVEXPONENTIAL "1 / 2" "1 / 60"]
  by simp

text \<open>
  The claim without the guard fails: with a negative \<open>m_gravity\<close> the mode
  \<open>EXPONENTIAL\<close> returns 0 and not \<open>m_gravity\<close>, and the mode
  \<open>TVEXPONENTIAL\<close> returns 0 and not the exponential.
\<close>

theorem get_gravity_modes_counterexample:
  "get_gravity EXPONENTIAL (- 1) 1 \<noteq> Inr (- 1) \<and>
   get_gravity TVEXPONENTIAL (- 1) 1 \<noteq> Inr (exp (- 1 / lerp 0 (5 * gravity_denom) (- 1)))"
  by (simp add: get_gravity_def)

subsection \<open>Rounding to binary32\<close>

lemma round_half_even_near: "\<bar>of_int (round_half_even y) - y\<bar> \<le> 1 / 2"
  unfolding round_half_even_def Let_def
  by (auto; linarith)

lemma round_half_even_zero: "0 \<le> y \<Longrightarrow> y < 1 / 2 \<Longrightarrow> round_half_even y = 0"
proof -
  assume a: "0 \<le> y" "y < 1 / 2"
  hence "\<lfloor>y\<rfloor> = 0" by (simp add: floor_eq_iff)
  thus ?thesis using a by (simp add: round_half_even_def)
qed

lemma round_half_even_one: "round_half_even 1 = 1"
  by (simp add: round_half_even_def)

lemma round_half_even_ge1: "1 / 2 < y \<Longrightarrow> 1 \<le> round_half_even y"
  using round_half_even_near [of y] by linarith

lemma f32_exponent_subnormal: "0 < p \<Longrightarrow> p < 1 / 2 ^ 126 \<Longrightarrow> f32_exponent p = - 126"
proof -
  assume a: "0 < p" "p < 1 / 2 ^ 126"
  have "(2::real) powr (- 126) = 1 / 2 ^ 126"
    by (simp add: powr_minus_divide)
  hence "log 2 p < - 126" using a by (simp add: log_less_iff)
  hence "\<lfloor>log 2 p\<rfloor> \<le> - 126" by linarith
  thus ?thesis using a by (simp add: f32_exponent_def)
qed

lemma f32_ulp_subnormal: "(2::real) powr of_int (- 126 - 23) = 1 / 2 ^ 149"
  by (simp add: powr_minus_divide)

lemma f32_round_tiny: "0 \<le> p \<Longrightarrow> p < 1 / 2 ^ 150 \<Longrightarrow> f32_round p = Inr 0"
proof (cases "p = 0")
  case True thus ?thesis by (simp add: f32_round_def)
next
  case False
  assume a: "0 \<le> p" "p < 1 / 2 ^ 150"
  have e: "f32_exponent p = - 126" using a False by (intro f32_exponent_subnormal) auto
  have "round_half_even (p / (1 / 2 ^ 149)) = 0"
    using a by (intro round_half_even_zero) auto
  thus ?thesis using False unfolding f32_round_def e f32_ulp_subnormal Let_def by simp
qed

lemma f32_round_min: "f32_round (1 / 2 ^ 149) = Inr (1 / 2 ^ 149)"
proof -
  have e: "f32_exponent (1 / 2 ^ 149) = - 126" by (intro f32_exponent_subnormal) auto
  have "round_half_even ((1 / 2 ^ 149) / (1 / 2 ^ 149)) = 1"
    by (simp add: round_half_even_one)
  thus ?thesis unfolding f32_round_def e f32_ulp_subnormal Let_def by simp
qed

lemma f32_round_normal:
  assumes lo: "1 / 2 ^ 126 \<le> p" and hi: "p < 2 ^ 127"
  shows "\<exists>d. f32_round p = Inr d \<and> \<bar>d - p\<bar> \<le> p / 2 ^ 24"
proof -
  define e where "e = \<lfloor>log 2 p\<rfloor>"
  have p0: "0 < p" using lo by (rule less_le_trans [rotated]) simp
  have "(2::real) powr (- 126) = 1 / 2 ^ 126"
    by (simp add: powr_minus_divide)
  hence "- 126 \<le> log 2 p" using lo p0 by (simp add: le_log_iff)
  hence e126: "- 126 \<le> e" unfolding e_def by linarith
  hence ex: "f32_exponent p = e" using p0 by (simp add: f32_exponent_def e_def)
  have "2 powr of_int e \<le> p"
    using floor_log_eq_powr_iff [of p 2 e] p0 by (simp add: e_def)
  define ulp where "ulp = (2::real) powr of_int (e - 23)"
  have u0: "0 < ulp" by (simp add: ulp_def)
  have "ulp = 2 powr of_int e / 2 powr 23"
    unfolding ulp_def by (simp add: powr_diff)
  also have "\<dots> = 2 powr of_int e / 2 ^ 23" by simp
  finally have "ulp * 2 ^ 23 = 2 powr of_int e" by simp
  hence ule: "ulp * 2 ^ 23 \<le> p" using \<open>2 powr of_int e \<le> p\<close> by simp
  define n where "n = round_half_even (p / ulp)"
  define r where "r = ulp * of_int n"
  have "\<bar>of_int n - p / ulp\<bar> \<le> 1 / 2" unfolding n_def by (rule round_half_even_near)
  hence "ulp * \<bar>of_int n - p / ulp\<bar> \<le> ulp * (1 / 2)"
    using u0 by (intro mult_left_mono) auto
  moreover have "ulp * \<bar>of_int n - p / ulp\<bar> = \<bar>r - p\<bar>"
  proof -
    have "ulp * \<bar>of_int n - p / ulp\<bar> = \<bar>ulp * (of_int n - p / ulp)\<bar>"
      using u0 by (simp add: abs_mult)
    also have "ulp * (of_int n - p / ulp) = r - p"
      using u0 by (simp add: r_def algebra_simps)
    finally show ?thesis .
  qed
  ultimately have err: "\<bar>r - p\<bar> \<le> ulp / 2" by simp
  have err2: "\<bar>r - p\<bar> \<le> p / 2 ^ 24" using err ule by simp
  have "\<bar>r\<bar> \<le> p + p / 2 ^ 24" using err2 p0 by linarith
  also have "\<dots> < 2 ^ 128" using hi by simp
  finally have fin: "\<bar>r\<bar> < 2 ^ 128" .
  have "f32_round p = Inr r"
    using p0 fin unfolding f32_round_def ex Let_def r_def n_def ulp_def by simp
  thus ?thesis using err2 by blast
qed

lemma f32_round_subnormal:
  assumes lo: "1 / 2 ^ 150 < p" and hi: "p < 1 / 2 ^ 126"
  shows "\<exists>d. f32_round p = Inr d \<and> 1 / 2 ^ 149 \<le> d \<and> d \<le> 1 / 2 ^ 126"
proof -
  have p0: "0 < p" using lo by (rule less_trans [rotated]) simp
  have e: "f32_exponent p = - 126" using p0 hi by (rule f32_exponent_subnormal)
  define n where "n = round_half_even (p / (1 / 2 ^ 149))"
  have "1 / 2 < p / (1 / 2 ^ 149)" using lo by simp
  hence n1: "1 \<le> n" unfolding n_def by (rule round_half_even_ge1)
  have "\<bar>of_int n - p / (1 / 2 ^ 149)\<bar> \<le> 1 / 2" unfolding n_def by (rule round_half_even_near)
  moreover have "p / (1 / 2 ^ 149) < 2 ^ 23" using hi by simp
  ultimately have "real_of_int n < 2 ^ 23 + 1" by linarith
  hence "real_of_int n < real_of_int (2 ^ 23 + 1)" by simp
  hence "n < 2 ^ 23 + 1" by (simp only: of_int_less_iff)
  hence n2: "n \<le> 2 ^ 23" by simp
  define r where "r = 1 / 2 ^ 149 * real_of_int n"
  have "1 \<le> real_of_int n" using n1 by simp
  hence r1: "1 / 2 ^ 149 \<le> r" unfolding r_def by simp
  have "real_of_int n \<le> 2 ^ 23" using n2 by (metis of_int_le_iff of_int_numeral of_int_power)
  hence r2: "r \<le> 1 / 2 ^ 126" unfolding r_def by simp
  have "\<bar>r\<bar> < 2 ^ 128" using r1 r2 by simp
  hence "f32_round p = Inr r"
    using p0 unfolding f32_round_def e f32_ulp_subnormal Let_def r_def n_def by simp
  thus ?thesis using r1 r2 by blast
qed

lemma f32_round_near:
  assumes lo: "1 / 2 ^ 126 \<le> p" and hi: "p < 2 ^ 127"
  shows "\<exists>d. f32_round p = Inr d \<and> 99 / 100 * p \<le> d \<and> d \<le> 101 / 100 * p"
proof -
  have p0: "0 < p" using lo by (rule less_le_trans [rotated]) simp
  from f32_round_normal [OF lo hi]
  obtain d where d: "f32_round p = Inr d" "\<bar>d - p\<bar> \<le> p / 2 ^ 24" by blast
  have "p / 2 ^ 24 \<le> p / 100" using p0 by (intro divide_left_mono) simp_all
  hence "\<bar>d - p\<bar> \<le> p / 100" using d(2) by (rule order_trans [rotated])
  hence "99 / 100 * p \<le> d" "d \<le> 101 / 100 * p" by linarith+
  thus ?thesis using d(1) by blast
qed

lemma f32_round_pos:
  assumes lo: "1 / 2 ^ 150 < p" and hi: "p < 2 ^ 127"
  shows "\<exists>d. f32_round p = Inr d \<and> 1 / 2 ^ 149 \<le> d \<and> d \<le> 101 / 100 * p + 1 / 2 ^ 126"
proof (cases "p < 1 / 2 ^ 126")
  case True
  have p0: "0 < p" using lo by (rule less_trans [rotated]) simp
  from f32_round_subnormal [OF lo True] p0 show ?thesis
    by (elim exE conjE, intro exI conjI) (assumption, assumption, linarith)
next
  case False
  hence lo': "1 / 2 ^ 126 \<le> p" by simp
  have p0: "0 < p" using lo by (rule less_trans [rotated]) simp
  from f32_round_near [OF lo' hi]
  obtain d where d: "f32_round p = Inr d" "99 / 100 * p \<le> d" "d \<le> 101 / 100 * p" by blast
  have "(1::real) / 2 ^ 149 \<le> 99 / 100 * (1 / 2 ^ 126)" by simp
  also have "\<dots> \<le> 99 / 100 * p" using lo' by (intro mult_left_mono) simp_all
  finally have "1 / 2 ^ 149 \<le> d" using d(2) by linarith
  moreover have "d \<le> 101 / 100 * p + 1 / 2 ^ 126" using d(3) p0 by simp
  ultimately show ?thesis using d(1) by blast
qed

lemma gravity_hi_f32:
  "\<exists>denom hi h. f32_round gravity_denom = Inr denom \<and> f32_mul denom 5 = Inr hi \<and>
     f32_sub hi 0 = Inr h \<and> 1 / 6 < h \<and> h < 1 / 4"
proof -
  have tiny: "(1::real) / 2 ^ 126 \<le> 1 / 100" and huge: "(1::real) < 2 ^ 127"
    by simp_all
  have k: "383 / 10000 < gravity_denom" "gravity_denom < 387 / 10000"
    by (simp_all add: gravity_denom_def)
  have "1 / 2 ^ 126 \<le> gravity_denom" "gravity_denom < 2 ^ 127"
    using k tiny huge by linarith+
  hence "\<exists>d. f32_round gravity_denom = Inr d \<and>
          99 / 100 * gravity_denom \<le> d \<and> d \<le> 101 / 100 * gravity_denom"
    by (rule f32_round_near)
  then obtain denom where d: "f32_round gravity_denom = Inr denom"
    and "99 / 100 * gravity_denom \<le> denom" "denom \<le> 101 / 100 * gravity_denom" by blast
  hence db: "37 / 1000 < denom" "denom < 4 / 100" using k by linarith+
  have "1 / 2 ^ 126 \<le> denom * 5" "denom * 5 < 2 ^ 127"
    using db tiny huge by linarith+
  hence "\<exists>d. f32_round (denom * 5) = Inr d \<and>
          99 / 100 * (denom * 5) \<le> d \<and> d \<le> 101 / 100 * (denom * 5)"
    by (rule f32_round_near)
  then obtain hi where h: "f32_mul denom 5 = Inr hi"
    and "99 / 100 * (denom * 5) \<le> hi" "hi \<le> 101 / 100 * (denom * 5)"
    unfolding f32_mul_def by blast
  hence hb: "18 / 100 < hi" "hi < 21 / 100" using db by linarith+
  have "1 / 2 ^ 126 \<le> hi - 0" "hi - 0 < 2 ^ 127"
    using hb tiny huge by linarith+
  hence "\<exists>d. f32_round (hi - 0) = Inr d \<and>
          99 / 100 * (hi - 0) \<le> d \<and> d \<le> 101 / 100 * (hi - 0)"
    by (rule f32_round_near)
  then obtain h' where h': "f32_sub hi 0 = Inr h'"
    and hb': "99 / 100 * (hi - 0) \<le> h'" "h' \<le> 101 / 100 * (hi - 0)"
    unfolding f32_sub_def by blast
  have "1 / 6 < h'" using hb' hb by simp
  moreover have "h' < 1 / 4" using hb' hb by simp
  ultimately have "1 / 6 < h'" "h' < 1 / 4" .
  thus ?thesis using d h h' by blast
qed

lemma gravity_denominator_f32_zero:
  assumes "0 < g" and "g \<le> 1 / 2 ^ 148"
  shows "gravity_denominator_f32 g = Inr 0"
proof -
  from gravity_hi_f32 obtain denom hi h where
    c: "f32_round gravity_denom = Inr denom" "f32_mul denom 5 = Inr hi" "f32_sub hi 0 = Inr h"
    and hb: "1 / 6 < h" "h < 1 / 4" by blast
  have "h * g < 1 / 4 * (1 / 2 ^ 148)"
    using hb assms by (intro mult_less_le_imp_less) simp_all
  hence "h * g < 1 / 2 ^ 150" by simp
  moreover have "0 \<le> h * g" using hb assms by simp
  ultimately have "f32_round (h * g) = Inr 0" by (intro f32_round_tiny)
  hence "f32_mul h g = Inr 0" by (simp add: f32_mul_def)
  moreover have "f32_add 0 0 = Inr 0" by (simp add: f32_add_def f32_round_def)
  ultimately show ?thesis
    by (simp add: gravity_denominator_f32_def lerp_f32_def c)
qed

lemma gravity_denominator_f32_pos:
  assumes "3 / 2 ^ 149 \<le> g" and "g < 2 ^ 128"
  shows "\<exists>d. gravity_denominator_f32 g = Inr d \<and> 0 < d"
proof -
  from gravity_hi_f32 obtain denom hi h where
    c: "f32_round gravity_denom = Inr denom" "f32_mul denom 5 = Inr hi" "f32_sub hi 0 = Inr h"
    and hb: "1 / 6 < h" "h < 1 / 4" by blast
  have g0: "0 < g" using assms(1) by (rule less_le_trans [rotated]) simp
  have "1 / 6 * (3 / 2 ^ 149) < h * g"
    using hb assms by (intro mult_less_le_imp_less) simp_all
  hence p1: "1 / 2 ^ 150 < h * g" by simp
  have "h * g < 1 / 4 * 2 ^ 128"
    using hb assms g0 by (intro mult_strict_mono) simp_all
  hence p2: "h * g < 2 ^ 126" by simp
  hence "h * g < 2 ^ 127" by simp
  from f32_round_pos [OF p1 this] obtain p where
    p: "f32_mul h g = Inr p" "1 / 2 ^ 149 \<le> p" "p \<le> 101 / 100 * (h * g) + 1 / 2 ^ 126"
    unfolding f32_mul_def by blast
  have "(1::real) / 2 ^ 150 < 1 / 2 ^ 149" by simp
  hence q1: "1 / 2 ^ 150 < 0 + p" using p(2) by simp
  have "101 / 100 * (h * g) < 101 / 100 * 2 ^ 126"
    using p2 by (intro mult_strict_left_mono) simp_all
  hence "p < 101 / 100 * 2 ^ 126 + 1 / 2 ^ 126" using p(3) by linarith
  also have "\<dots> < 2 ^ 127" by simp
  finally have q2: "0 + p < 2 ^ 127" by simp
  from f32_round_pos [OF q1 q2] obtain d where
    d: "f32_add 0 p = Inr d" "1 / 2 ^ 149 \<le> d"
    unfolding f32_add_def by blast
  have "(0::real) < 1 / 2 ^ 149" by simp
  hence "0 < d" using d(2) by (rule less_le_trans)
  thus ?thesis using d(1) p(1) c
    by (simp add: gravity_denominator_f32_def lerp_f32_def)
qed

subsection \<open>The denominator of \<open>get_gravity\<close> in binary32\<close>

text \<open>
  In binary32 the guard of \<open>get_gravity\<close> works as over the reals, and the
  denominator is strictly positive for every finite \<open>m_gravity\<close> from
  \<open>3 * 2 ^ - 149\<close> on. For the two smallest positive numbers of the type,
  \<open>2 ^ - 149\<close> and \<open>2 ^ - 148\<close>, the product \<open>hi * m_gravity\<close> is less than
  half of \<open>2 ^ - 149\<close> and is rounded to zero.
\<close>

lemma get_gravity_f32_guard:
  "m = NONE \<or> g \<le> 0 \<Longrightarrow> get_gravity_f32 m g s = Inr 0"
  by (auto simp: get_gravity_f32_def)

lemma get_gravity_f32_exponential:
  "0 < g \<Longrightarrow> get_gravity_f32 EXPONENTIAL g s = Inr g"
  by (simp add: get_gravity_f32_def)

text \<open>
  Claim C10 on the binary32 code. \<open>m_gravity = 2 ^ - 149\<close>, the smallest
  positive \<open>float\<close>, passes the guard \<open>m_gravity <= 0.0f\<close>; in mode
  \<open>TVEXPONENTIAL\<close> the denominator \<open>lerp(0, 5 k, m_gravity)\<close> is then zero, so
  the division is by zero, and with \<open>seconds = 0\<close> its result is not a number:
  the division is not always evaluated with a strictly positive denominator.
\<close>

theorem get_gravity_f32_underflow:
  "f32_round (1 / 2 ^ 149) = Inr (1 / 2 ^ 149) \<and>
   gravity_denominator_f32 (1 / 2 ^ 149) = Inr 0 \<and>
   get_gravity_f32 TVEXPONENTIAL (1 / 2 ^ 149) 0 = Inl NonFinite"
proof -
  have "(0::real) < 1 / 2 ^ 149" "(1::real) / 2 ^ 149 \<le> 1 / 2 ^ 148" by simp_all
  hence z: "gravity_denominator_f32 (1 / 2 ^ 149) = Inr 0"
    by (rule gravity_denominator_f32_zero)
  have "get_gravity_f32 TVEXPONENTIAL (1 / 2 ^ 149) 0 = Inl NonFinite"
    unfolding get_gravity_f32_def z by (simp add: f32_div_def)
  thus ?thesis using z f32_round_min by simp
qed

section \<open>Ring buffer: memory and layout lemmas\<close>

subsection \<open>Reads and writes that stay inside the block\<close>

lemma length_store: "off + length xs \<le> length m \<Longrightarrow> length (store m off xs) = length m"
  by (simp add: store_def)

lemma nth_store:
  assumes "off + length xs \<le> length m" and "i < length m"
  shows "store m off xs ! i = (if off \<le> i \<and> i < off + length xs then xs ! (i - off) else m ! i)"
  using assms by (auto simp: store_def nth_append)

lemma store_Nil [simp]: "off \<le> length m \<Longrightarrow> store m off [] = m"
  by (simp add: store_def)

lemma mem_read_Inr: "off + n \<le> length m \<Longrightarrow> mem_read m off n = Inr (take n (drop off m))"
  by (simp add: mem_read_def)

lemma mem_write_Inr: "off + length xs \<le> length m \<Longrightarrow> mem_write m off xs = Inr (store m off xs)"
  by (simp add: mem_write_def store_def)

lemma memcpy_Inr:
  "s + unat n \<le> length src \<Longrightarrow> d + unat n \<le> length dst \<Longrightarrow>
   memcpy dst d src s n = Inr (store dst d (take (unat n) (drop s src)))"
  by (simp add: memcpy_def mem_read_Inr mem_write_Inr)

lemma memmove_Inr:
  "s + unat n \<le> length m \<Longrightarrow> d + unat n \<le> length m \<Longrightarrow>
   memmove m d s n = Inr (store m d (take (unat n) (drop s m)))"
  by (simp add: memmove_def mem_read_Inr mem_write_Inr)

lemma memset_Inr:
  "d + unat n \<le> length dst \<Longrightarrow> memset dst d c n = Inr (store dst d (replicate (unat n) (Some c)))"
  by (simp add: memset_def mem_write_Inr)

lemma length_brealloc [simp]: "length (brealloc m n) = max (unat n) (min (length m) (unat n))"
  by (simp add: brealloc_def)

lemma length_brealloc_grow: "length m \<le> unat n \<Longrightarrow> length (brealloc m n) = unat n"
  by (simp add: brealloc_def)

lemma nth_brealloc: "i < length m \<Longrightarrow> length m \<le> unat n \<Longrightarrow> brealloc m n ! i = m ! i"
  by (simp add: brealloc_def nth_append)

subsection \<open>Offsets and word arithmetic without wrap-around\<close>

lemma phys_mod: "start < cap \<Longrightarrow> i < cap \<Longrightarrow> (start + i) mod cap = phys cap start i"
  by (simp add: phys_def mod_if)

lemma unat_lt64: "unat (w :: 64 word) < 2 ^ 64"
  using unsigned_less [of w, where 'a = nat] by simp

lemma unat_add_nowrap:
  fixes a b :: "64 word"
  shows "unat a + unat b < 2 ^ 64 \<Longrightarrow> unat (a + b) = unat a + unat b"
  using unat_add_lem [of a b] by simp

lemma unat_dbl:
  fixes a :: "64 word"
  shows "2 * unat a < 2 ^ 64 \<Longrightarrow> unat (a * 2) = 2 * unat a"
  using unat_mult_lem [of a 2] by (simp add: mult.commute)

subsection \<open>Growth: \<open>circlebuf_reorder_data\<close>, \<open>circlebuf_ensure_capacity\<close>\<close>

text \<open>
  The common part of \<open>circlebuf_ensure_capacity\<close> and \<open>circlebuf_reserve\<close>:
  reallocate, slide the tail of wrapped data to the end of the new block, set
  the capacity. \<open>s0\<close> is the number of bytes stored before the size field was
  raised. Every stored byte keeps its logical index.
\<close>

lemma grow_correct:
  fixes cb :: circlebuf and newcap :: "64 word"
  assumes len: "length (data cb) = unat (capacity cb)"
    and lay: "layout (unat (capacity cb)) (unat (start_pos cb)) (unat (end_pos cb)) s0"
    and s0: "s0 \<le> unat (size_cb cb)"
    and gt: "capacity cb < newcap"
  shows "\<exists>cb'. and_then (circlebuf_reorder_data (cb\<lparr>data := brealloc (data cb) newcap\<rparr>) newcap)
                 (\<lambda>c. Inr (c\<lparr>capacity := newcap\<rparr>)) = Inr cb' \<and>
           length (data cb') = unat newcap \<and> capacity cb' = newcap \<and>
           size_cb cb' = size_cb cb \<and> end_pos cb' = end_pos cb \<and>
           layout (unat newcap) (unat (start_pos cb')) (unat (end_pos cb)) s0 \<and>
           (\<forall>i. i < s0 \<longrightarrow> data cb' ! phys (unat newcap) (unat (start_pos cb')) i =
                    data cb ! phys (unat (capacity cb)) (unat (start_pos cb)) i)"
proof -
  let ?C = "unat (capacity cb)" and ?N = "unat newcap" and ?S = "unat (start_pos cb)"
  let ?E = "unat (end_pos cb)"
  let ?m = "brealloc (data cb) newcap"
  have CN: "?C < ?N" using gt by (simp add: word_less_nat_alt)
  have lm: "length ?m = ?N" using len CN by (simp add: length_brealloc_grow)
  have nm: "\<And>i. i < ?C \<Longrightarrow> ?m ! i = data cb ! i" using len CN by (simp add: nth_brealloc)
  show ?thesis
  proof (cases "size_cb cb = 0 \<or> start_pos cb = 0 \<or> end_pos cb > start_pos cb")
    case True
    then have keep: "s0 = 0 \<or> ?S + s0 \<le> ?C"
      using lay s0 by (auto simp: layout_def word_less_nat_alt unat_eq_0 split: if_splits)
    have r: "circlebuf_reorder_data (cb\<lparr>data := ?m\<rparr>) newcap = Inr (cb\<lparr>data := ?m\<rparr>)"
      using True by (simp add: circlebuf_reorder_data_def)
    have l: "layout ?N ?S ?E s0" using lay keep CN by (auto simp: layout_def split: if_splits)
    have d: "\<forall>i. i < s0 \<longrightarrow> ?m ! phys ?N ?S i = data cb ! phys ?C ?S i"
      using keep CN nm by (auto simp: phys_def)
    show ?thesis using r l d lm by simp
  next
    case False
    then have nz: "size_cb cb \<noteq> 0" "start_pos cb \<noteq> 0" and es: "?E \<le> ?S"
      by (auto simp: word_less_nat_alt)
    have S0: "0 < ?S" using nz(2) by (simp add: unat_gt_0)
    have s0pos: "0 < s0" using lay S0 by (auto simp: layout_def split: if_splits)
    have SC: "?S < ?C" and wrap: "?C < ?S + s0" and E: "?E = ?S + s0 - ?C" and s0C: "s0 \<le> ?C"
      using lay s0pos es by (auto simp: layout_def split: if_splits)
    let ?diff = "newcap - capacity cb"
    obtain D where N: "?N = ?C + D" and Dpos: "0 < D"
      using CN by (metis less_imp_add_positive)
    have udiff: "unat ?diff = D" using gt N by (simp add: unat_sub word_less_nat_alt word_le_nat_alt)
    have ucs: "unat (capacity cb - start_pos cb) = ?C - ?S"
      using SC by (simp add: unat_sub word_le_nat_alt)
    have ust: "unat (start_pos cb + ?diff) = ?S + D"
    proof -
      have "?S + unat ?diff < 2 ^ 64" using udiff SC N unat_lt64 [of newcap] by simp
      then show ?thesis using unat_add_nowrap [of "start_pos cb" ?diff] udiff by simp
    qed
    let ?xs = "take (?C - ?S) (drop ?S ?m)"
    let ?d = "store ?m (?S + D) ?xs"
    have lxs: "length ?xs = ?C - ?S" using lm N by simp
    have fits: "?S + D + length ?xs \<le> length ?m" using lxs lm N SC by simp
    have mv: "memmove ?m (?S + unat ?diff) ?S (capacity cb - start_pos cb) = Inr ?d"
      using SC N lm udiff ucs by (simp add: memmove_Inr)
    have r: "circlebuf_reorder_data (cb\<lparr>data := ?m\<rparr>) newcap =
             Inr (cb\<lparr>data := ?d, start_pos := start_pos cb + ?diff\<rparr>)"
      using False mv by (simp add: circlebuf_reorder_data_def Let_def)
    have ld: "length ?d = ?N" using fits lm by (simp add: length_store)
    have l: "layout ?N (?S + D) ?E s0"
      using SC N wrap E s0C s0pos by (auto simp: layout_def)
    have d: "?d ! phys ?N (?S + D) i = data cb ! phys ?C ?S i" if "i < s0" for i
    proof (cases "?S + i < ?C")
      case True
      have "?d ! (?S + D + i) = ?xs ! (?S + D + i - (?S + D))"
        using nth_store [OF fits, of "?S + D + i"] True lxs lm N by simp
      also have "\<dots> = ?xs ! i" by simp
      also have "\<dots> = ?m ! (?S + i)" using True lm N by simp
      also have "\<dots> = data cb ! (?S + i)" using nm True by simp
      finally show ?thesis using True N by (simp add: phys_def)
    next
      case False
      let ?j = "?S + i - ?C"
      have j: "?j < ?S" using False that s0C by simp
      have "?d ! ?j = ?m ! ?j"
        using nth_store [OF fits, of ?j] j lm N SC by simp
      also have "\<dots> = data cb ! ?j" using nm [of ?j] j SC by simp
      finally have "?d ! ?j = data cb ! ?j" .
      moreover have "phys ?N (?S + D) i = ?j" using False N by (simp add: phys_def)
      moreover have "phys ?C ?S i = ?j" using False by (simp add: phys_def)
      ultimately show ?thesis by simp
    qed
    show ?thesis using r l d ld ust N by simp
  qed
qed

lemma length_ring_store:
  "p \<le> length d \<Longrightarrow> length xs \<le> length d \<Longrightarrow> length (ring_store d p xs) = length d"
  by (simp add: ring_store_def length_store)

lemma nth_ring_store:
  assumes p: "p \<le> length d" and n: "length xs \<le> length d" and j: "j < length d"
  shows "ring_store d p xs ! j =
           (if p \<le> j \<and> j < p + length xs then xs ! (j - p)
            else if j + length d < p + length xs then xs ! (j + length d - p)
            else d ! j)"
proof (cases "length d < p + length xs")
  case False
  then show ?thesis using assms by (simp add: ring_store_def nth_store)
next
  case True
  let ?b = "length d - p"
  let ?d1 = "store d p (take ?b xs)"
  have f1: "p + length (take ?b xs) \<le> length d" using p by simp
  have l1: "length ?d1 = length d" using f1 by (rule length_store)
  have f2: "0 + length (drop ?b xs) \<le> length ?d1" using n l1 by simp
  have "ring_store d p xs ! j = store ?d1 0 (drop ?b xs) ! j"
    using True by (simp add: ring_store_def)
  also have "\<dots> = (if j < length xs - ?b then drop ?b xs ! j else ?d1 ! j)"
    using nth_store [OF f2, of j] j l1 by simp
  also have "\<dots> = (if j < length xs - ?b then xs ! (?b + j)
                   else if p \<le> j then xs ! (j - p) else d ! j)"
    using nth_store [OF f1, of j] j True p by (auto simp: min_def)
  finally show ?thesis using True p n j by (auto simp: add.commute)
qed

lemma ensure_capacity_correct:
  fixes cb :: circlebuf
  assumes len: "length (data cb) = unat (capacity cb)"
    and lay: "layout (unat (capacity cb)) (unat (start_pos cb)) (unat (end_pos cb)) s0"
    and s0: "s0 \<le> unat (size_cb cb)"
    and fit: "2 * unat (capacity cb) < 2 ^ 64"
  shows "\<exists>cb'. circlebuf_ensure_capacity cb = Inr cb' \<and>
           length (data cb') = unat (capacity cb') \<and>
           size_cb cb' = size_cb cb \<and> end_pos cb' = end_pos cb \<and>
           unat (capacity cb') =
             (if unat (capacity cb) < unat (size_cb cb)
              then max (2 * unat (capacity cb)) (unat (size_cb cb)) else unat (capacity cb)) \<and>
           layout (unat (capacity cb')) (unat (start_pos cb')) (unat (end_pos cb)) s0 \<and>
           (\<forall>i. i < s0 \<longrightarrow> data cb' ! phys (unat (capacity cb')) (unat (start_pos cb')) i =
                    data cb ! phys (unat (capacity cb)) (unat (start_pos cb)) i)"
proof (cases "size_cb cb \<le> capacity cb")
  case True
  then show ?thesis using len lay
    by (simp add: circlebuf_ensure_capacity_def word_le_nat_alt)
next
  case False
  let ?C = "unat (capacity cb)"
  let ?nc = "if size_cb cb > capacity cb * 2 then size_cb cb else capacity cb * 2"
  have lt: "?C < unat (size_cb cb)" using False by (simp add: word_le_nat_alt)
  have dbl: "unat (capacity cb * 2) = 2 * ?C" using fit by (rule unat_dbl)
  have nc: "unat ?nc = max (2 * ?C) (unat (size_cb cb))"
    using dbl by (simp add: word_less_nat_alt max_def)
  have gt: "capacity cb < ?nc" using lt nc by (simp only: word_less_nat_alt)
  from grow_correct [OF len lay s0 gt] obtain cb' where
    g: "and_then (circlebuf_reorder_data (cb\<lparr>data := brealloc (data cb) ?nc\<rparr>) ?nc)
          (\<lambda>c. Inr (c\<lparr>capacity := ?nc\<rparr>)) = Inr cb'"
    and props: "length (data cb') = unat ?nc" "capacity cb' = ?nc"
      "size_cb cb' = size_cb cb" "end_pos cb' = end_pos cb"
      "layout (unat ?nc) (unat (start_pos cb')) (unat (end_pos cb)) s0"
      "\<forall>i. i < s0 \<longrightarrow> data cb' ! phys (unat ?nc) (unat (start_pos cb')) i =
              data cb ! phys ?C (unat (start_pos cb)) i"
    by blast
  have e: "circlebuf_ensure_capacity cb = Inr cb'"
    using False g by (simp add: circlebuf_ensure_capacity_def Let_def)
  show ?thesis using e props nc lt by (simp del: unat_eq_0)
qed

subsection \<open>Content of a well-formed buffer\<close>

lemma length_cb_contents [simp]: "length (cb_contents cb) = unat (size_cb cb)"
  by (simp add: cb_contents_def)

lemma layout_phys_mod:
  "layout C S E s \<Longrightarrow> i < s \<Longrightarrow> (S + i) mod C = phys C S i"
  by (rule phys_mod) (auto simp: layout_def split: if_splits)

lemma layout_phys_less:
  "layout C S E s \<Longrightarrow> i < s \<Longrightarrow> phys C S i < C"
  by (auto simp: layout_def phys_def split: if_splits)

lemma cb_contents_nth:
  assumes "layout (unat (capacity cb)) (unat (start_pos cb)) E (unat (size_cb cb))"
    and "i < unat (size_cb cb)"
  shows "cb_contents cb ! i = data cb ! phys (unat (capacity cb)) (unat (start_pos cb)) i"
  using assms by (simp add: cb_contents_def layout_phys_mod)

lemma cb_contents_eqI:
  assumes "layout (unat (capacity cb)) (unat (start_pos cb)) E (unat (size_cb cb))"
    and "length ys = unat (size_cb cb)"
    and "\<And>i. i < unat (size_cb cb) \<Longrightarrow>
            data cb ! phys (unat (capacity cb)) (unat (start_pos cb)) i = ys ! i"
  shows "cb_contents cb = ys"
  using assms by (intro nth_equalityI) (simp_all add: cb_contents_nth)

lemma layout_end_le: "layout C S E s \<Longrightarrow> E \<le> C"
  by (auto simp: layout_def split: if_splits)

subsection \<open>Writing behind the stored bytes: \<open>push_back\<close>, \<open>push_back_zero\<close>, \<open>upsize\<close>\<close>

lemma append_layout:
  "layout C S E s0 \<Longrightarrow> s0 + n \<le> C \<Longrightarrow>
   layout C S (if C < E + n then E + n - C else E + n) (s0 + n)"
  by (auto simp: layout_def split: if_splits)

lemma append_cells:
  assumes len: "length d = C" and lay: "layout C S E s0" and room: "s0 + length xs \<le> C"
  shows "layout C S (if C < E + length xs then E + length xs - C else E + length xs)
           (s0 + length xs)"
    and "\<And>i. i < s0 \<Longrightarrow> ring_store d E xs ! phys C S i = d ! phys C S i"
    and "\<And>i. i < length xs \<Longrightarrow> ring_store d E xs ! phys C S (s0 + i) = xs ! i"
proof -
  show "layout C S (if C < E + length xs then E + length xs - C else E + length xs)
           (s0 + length xs)"
    using lay room by (rule append_layout)
next
  fix i assume i: "i < s0"
  have E: "E \<le> length d" using lay len by (simp add: layout_end_le)
  have n: "length xs \<le> length d" using room len by simp
  have j: "phys C S i < length d" using lay i len by (simp add: layout_phys_less)
  show "ring_store d E xs ! phys C S i = d ! phys C S i"
    unfolding nth_ring_store [OF E n j]
    using lay room i len by (auto simp: layout_def phys_def split: if_splits)
next
  fix i assume i: "i < length xs"
  have E: "E \<le> length d" using lay len by (simp add: layout_end_le)
  have n: "length xs \<le> length d" using room len by simp
  have lay': "layout C S (if C < E + length xs then E + length xs - C else E + length xs)
           (s0 + length xs)"
    using lay room by (rule append_layout)
  have j: "phys C S (s0 + i) < length d"
    using layout_phys_less [OF lay', of "s0 + i"] i len by simp
  show "ring_store d E xs ! phys C S (s0 + i) = xs ! i"
    unfolding nth_ring_store [OF E n j]
    using lay room i len by (auto simp: layout_def phys_def split: if_splits)
qed

lemma cb_wf_layout:
  "cb_wf cb \<Longrightarrow>
   layout (unat (capacity cb)) (unat (start_pos cb)) (unat (end_pos cb)) (unat (size_cb cb))"
  by (simp add: cb_wf_def)

lemma cb_wf_length: "cb_wf cb \<Longrightarrow> length (data cb) = unat (capacity cb)"
  by (simp add: cb_wf_def)

lemma cb_wf_end_le: "cb_wf cb \<Longrightarrow> unat (end_pos cb) \<le> unat (capacity cb)"
  by (rule layout_end_le) (rule cb_wf_layout)

lemma cb_wf_nth:
  "cb_wf cb \<Longrightarrow> i < unat (size_cb cb) \<Longrightarrow>
   cb_contents cb ! i = data cb ! phys (unat (capacity cb)) (unat (start_pos cb)) i"
  by (rule cb_contents_nth) (rule cb_wf_layout)

lemma cb_wf_size_le: "cb_wf cb \<Longrightarrow> unat (size_cb cb) \<le> unat (capacity cb)"
  by (simp add: cb_wf_def layout_def)

lemma push_prepare:
  assumes wf: "cb_wf cb" and fit: "2 * unat (capacity cb) + unat n < 2 ^ 64"
  shows "\<exists>cb1. circlebuf_ensure_capacity (cb\<lparr>size_cb := size_cb cb + n\<rparr>) = Inr cb1 \<and>
           length (data cb1) = unat (capacity cb1) \<and>
           size_cb cb1 = size_cb cb + n \<and>
           unat (size_cb cb1) = unat (size_cb cb) + unat n \<and>
           end_pos cb1 = end_pos cb \<and>
           unat (capacity cb1) =
             (if unat (capacity cb) < unat (size_cb cb) + unat n
              then max (2 * unat (capacity cb)) (unat (size_cb cb) + unat n)
              else unat (capacity cb)) \<and>
           unat (size_cb cb) + unat n \<le> unat (capacity cb1) \<and>
           layout (unat (capacity cb1)) (unat (start_pos cb1)) (unat (end_pos cb))
             (unat (size_cb cb)) \<and>
           (\<forall>i. i < unat (size_cb cb) \<longrightarrow>
              data cb1 ! phys (unat (capacity cb1)) (unat (start_pos cb1)) i = cb_contents cb ! i)"
proof -
  let ?cb0 = "cb\<lparr>size_cb := size_cb cb + n\<rparr>"
  let ?s = "unat (size_cb cb)"
  have sC: "?s \<le> unat (capacity cb)" using wf by (rule cb_wf_size_le)
  have sz: "unat (size_cb cb + n) = ?s + unat n"
    using sC fit by (intro unat_add_nowrap) simp
  have len: "length (data ?cb0) = unat (capacity ?cb0)" using wf by (simp add: cb_wf_def)
  have lay: "layout (unat (capacity ?cb0)) (unat (start_pos ?cb0)) (unat (end_pos ?cb0)) ?s"
    using wf by (simp add: cb_wf_def)
  have s0: "?s \<le> unat (size_cb ?cb0)" using sz by simp
  have fit': "2 * unat (capacity ?cb0) < 2 ^ 64" using fit by simp
  from ensure_capacity_correct [OF len lay s0 fit'] obtain cb1 where
    e: "circlebuf_ensure_capacity ?cb0 = Inr cb1"
    and p: "length (data cb1) = unat (capacity cb1)" "size_cb cb1 = size_cb ?cb0"
      "end_pos cb1 = end_pos ?cb0"
      "unat (capacity cb1) =
         (if unat (capacity ?cb0) < unat (size_cb ?cb0)
          then max (2 * unat (capacity ?cb0)) (unat (size_cb ?cb0)) else unat (capacity ?cb0))"
      "layout (unat (capacity cb1)) (unat (start_pos cb1)) (unat (end_pos ?cb0)) ?s"
      "\<forall>i. i < ?s \<longrightarrow> data cb1 ! phys (unat (capacity cb1)) (unat (start_pos cb1)) i =
              data ?cb0 ! phys (unat (capacity ?cb0)) (unat (start_pos ?cb0)) i"
    by blast
  have c: "\<forall>i. i < ?s \<longrightarrow>
             data cb1 ! phys (unat (capacity cb1)) (unat (start_pos cb1)) i = cb_contents cb ! i"
    using p(6) cb_wf_nth [OF wf] by simp
  have cap: "unat (capacity cb1) =
             (if unat (capacity cb) < ?s + unat n
              then max (2 * unat (capacity cb)) (?s + unat n) else unat (capacity cb))"
    using p(4) sz by simp
  have room: "?s + unat n \<le> unat (capacity cb1)" using cap by (simp split: if_splits)
  show ?thesis using e p(1,2,3,5) sz cap room c by simp
qed

lemma append_result:
  assumes len: "length (data cb1) = unat (capacity cb1)"
    and lay: "layout (unat (capacity cb1)) (unat (start_pos cb1)) (unat (end_pos cb1)) s0"
    and sz: "unat (size_cb cb1) = s0 + length xs"
    and room: "s0 + length xs \<le> unat (capacity cb1)"
    and old: "\<forall>i. i < s0 \<longrightarrow>
                data cb1 ! phys (unat (capacity cb1)) (unat (start_pos cb1)) i = ys ! i"
    and ys: "length ys = s0"
    and e': "unat e' = (if unat (capacity cb1) < unat (end_pos cb1) + length xs
                        then unat (end_pos cb1) + length xs - unat (capacity cb1)
                        else unat (end_pos cb1) + length xs)"
    and cb': "cb' = cb1\<lparr>data := ring_store (data cb1) (unat (end_pos cb1)) xs, end_pos := e'\<rparr>"
  shows "cb_wf cb' \<and> cb_contents cb' = ys @ xs"
proof -
  let ?C = "unat (capacity cb1)" and ?S = "unat (start_pos cb1)" and ?E = "unat (end_pos cb1)"
  note ac = append_cells [OF len lay room]
  have E: "?E \<le> length (data cb1)" using lay len by (simp add: layout_end_le)
  have n: "length xs \<le> length (data cb1)" using room len by simp
  have l': "length (data cb') = ?C" using cb' E n len by (simp add: length_ring_store)
  have lay': "layout (unat (capacity cb')) (unat (start_pos cb')) (unat (end_pos cb'))
                (unat (size_cb cb'))"
    using ac(1) cb' e' sz by simp
  have wf: "cb_wf cb'" using l' lay' cb' by (simp add: cb_wf_def)
  have "cb_contents cb' = ys @ xs"
  proof (rule cb_contents_eqI [OF lay'])
    show "length (ys @ xs) = unat (size_cb cb')" using cb' sz ys by simp
  next
    fix i assume "i < unat (size_cb cb')"
    then have i: "i < s0 + length xs" using cb' sz by simp
    show "data cb' ! phys (unat (capacity cb')) (unat (start_pos cb')) i = (ys @ xs) ! i"
    proof (cases "i < s0")
      case True
      then show ?thesis using ac(2) [of i] old cb' ys by (simp add: nth_append)
    next
      case False
      then have "i = s0 + (i - s0)" "i - s0 < length xs" using i by simp_all
      then show ?thesis using ac(3) [of "i - s0"] cb' ys False by (simp add: nth_append)
    qed
  qed
  with wf show ?thesis by simp
qed

lemma writesD:
  "writes wr xs \<Longrightarrow> s + unat k \<le> length xs \<Longrightarrow> d + unat k \<le> length dst \<Longrightarrow>
   wr dst d s k = Inr (store dst d (take (unat k) (drop s xs)))"
  by (simp add: writes_def)

lemma take_drop_take:
  assumes "s + k \<le> n"
  shows "take k (drop s (take n l)) = take k (drop s l)"
proof -
  have "drop s (take n l) = take (n - s) (drop s l)" by (simp add: drop_take)
  moreover have "min k (n - s) = k" using assms by simp
  ultimately show ?thesis by (simp only: take_take)
qed

lemma writes_memcpy:
  assumes "unat n \<le> length src"
  shows "writes (\<lambda>dst d s k. memcpy dst d (map Some src) s k) (map Some (take (unat n) src))"
  unfolding writes_def
proof (intro allI impI)
  fix dst :: "cell list" and d s :: nat and k :: size_t
  assume s: "s + unat k \<le> length (map Some (take (unat n) src))"
    and d: "d + unat k \<le> length dst"
  have sn: "s + unat k \<le> unat n" using s assms by simp
  have "memcpy dst d (map Some src) s k = Inr (store dst d (take (unat k) (drop s (map Some src))))"
    using sn assms d by (intro memcpy_Inr) simp_all
  also have "take (unat k) (drop s (map Some src)) =
             take (unat k) (drop s (map Some (take (unat n) src)))"
    using take_drop_take [OF sn, of "map Some src"] by (simp add: take_map)
  finally show "memcpy dst d (map Some src) s k =
                Inr (store dst d (take (unat k) (drop s (map Some (take (unat n) src)))))" .
qed

lemma writes_memset:
  "writes (\<lambda>dst d s k. memset dst d c k) (replicate (unat n) (Some c))"
  unfolding writes_def
proof (intro allI impI)
  fix dst :: "cell list" and d s :: nat and k :: size_t
  assume s: "s + unat k \<le> length (replicate (unat n) (Some c))"
    and d: "d + unat k \<le> length dst"
  have "min (unat n - s) (unat k) = unat k" using s by simp
  then have "take (unat k) (drop s (replicate (unat n) (Some c))) = replicate (unat k) (Some c)"
    by simp
  then show "memset dst d c k =
             Inr (store dst d (take (unat k) (drop s (replicate (unat n) (Some c)))))"
    using d by (simp add: memset_Inr)
qed

lemma push_back_as_with:
  "circlebuf_push_back cb src n = push_back_with (\<lambda>dst d s k. memcpy dst d (map Some src) s k) cb n"
  by (simp add: circlebuf_push_back_def push_back_with_def)

lemma push_back_zero_as_with:
  "circlebuf_push_back_zero cb n = push_back_with (\<lambda>dst d s k. memset dst d 0 k) cb n"
  by (simp add: circlebuf_push_back_zero_def push_back_with_def)

lemma upsize_as_with:
  "circlebuf_upsize cb sz =
     (if sz \<le> size_cb cb then Inr cb
      else push_back_with (\<lambda>dst d s k. memset dst d 0 k) cb (sz - size_cb cb))"
  by (simp add: circlebuf_upsize_def push_back_with_def Let_def)

lemma push_back_with_correct:
  assumes wf: "cb_wf cb" and wr: "writes wr xs" and lx: "length xs = unat n"
    and fit: "2 * unat (capacity cb) + unat n < 2 ^ 64"
  shows "\<exists>cb'. push_back_with wr cb n = Inr cb' \<and> cb_wf cb' \<and>
           cb_contents cb' = cb_contents cb @ xs \<and>
           unat (size_cb cb') = unat (size_cb cb) + unat n \<and>
           unat (capacity cb') =
             (if unat (capacity cb) < unat (size_cb cb) + unat n
              then max (2 * unat (capacity cb)) (unat (size_cb cb) + unat n)
              else unat (capacity cb))"
proof -
  from push_prepare [OF wf fit] obtain cb1 where
    e: "circlebuf_ensure_capacity (cb\<lparr>size_cb := size_cb cb + n\<rparr>) = Inr cb1"
    and len: "length (data cb1) = unat (capacity cb1)"
    and sz1: "size_cb cb1 = size_cb cb + n"
    and sz: "unat (size_cb cb1) = unat (size_cb cb) + unat n"
    and en: "end_pos cb1 = end_pos cb"
    and cap: "unat (capacity cb1) =
             (if unat (capacity cb) < unat (size_cb cb) + unat n
              then max (2 * unat (capacity cb)) (unat (size_cb cb) + unat n)
              else unat (capacity cb))"
    and room: "unat (size_cb cb) + unat n \<le> unat (capacity cb1)"
    and lay: "layout (unat (capacity cb1)) (unat (start_pos cb1)) (unat (end_pos cb))
                (unat (size_cb cb))"
    and old: "\<forall>i. i < unat (size_cb cb) \<longrightarrow>
              data cb1 ! phys (unat (capacity cb1)) (unat (start_pos cb1)) i = cb_contents cb ! i"
    by blast
  let ?C = "unat (capacity cb1)" and ?E = "unat (end_pos cb)" and ?n = "unat n"
  let ?d = "data cb1"
  have EC0: "?E \<le> unat (capacity cb)" using wf by (rule cb_wf_end_le)
  have EC: "?E \<le> ?C" using lay by (rule layout_end_le)
  have ne: "unat (end_pos cb + n) = ?E + ?n"
    using EC0 fit by (intro unat_add_nowrap) simp
  define e' where "e' = (if end_pos cb + n > capacity cb1
                         then end_pos cb + n - capacity cb1 else end_pos cb + n)"
  have ue': "unat e' = (if ?C < ?E + ?n then ?E + ?n - ?C else ?E + ?n)"
    using ne by (simp add: e'_def word_less_nat_alt unat_sub word_le_nat_alt)
  have tail: "(if end_pos cb + n > capacity cb1 then
          let back_size = capacity cb1 - end_pos cb1;
              loop_size = n - back_size
          in and_then (if back_size \<noteq> 0
                       then wr (data cb1) (unat (end_pos cb1)) 0 back_size
                       else Inr (data cb1)) (\<lambda>d.
             and_then (wr d 0 (unat back_size) loop_size) (\<lambda>d.
             Inr (cb1\<lparr>data := d, end_pos := end_pos cb + n - capacity cb1\<rparr>)))
        else and_then (wr (data cb1) (unat (end_pos cb1)) 0 n) (\<lambda>d.
             Inr (cb1\<lparr>data := d, end_pos := end_pos cb + n\<rparr>)))
      = Inr (cb1\<lparr>data := ring_store ?d ?E xs, end_pos := e'\<rparr>)"
  proof (cases "end_pos cb + n > capacity cb1")
    case False
    then have nw: "?E + ?n \<le> ?C" using ne by (simp add: word_less_nat_alt)
    have "wr ?d ?E 0 n = Inr (store ?d ?E (take ?n (drop 0 xs)))"
      using nw len lx by (intro writesD [OF wr]) simp_all
    then show ?thesis using False nw len lx en by (simp add: e'_def ring_store_def)
  next
    case True
    then have w: "?C < ?E + ?n" using ne by (simp add: word_less_nat_alt)
    let ?bsz = "capacity cb1 - end_pos cb1"
    have ub: "unat ?bsz = ?C - ?E" using EC en by (simp add: unat_sub word_le_nat_alt)
    have bn: "?C - ?E \<le> ?n" using w by simp
    have ul: "unat (n - ?bsz) = ?n - (?C - ?E)"
      using bn ub by (simp add: unat_sub word_le_nat_alt)
    have w1: "(if ?bsz \<noteq> 0 then wr ?d (unat (end_pos cb1)) 0 ?bsz else Inr ?d)
              = Inr (store ?d ?E (take (?C - ?E) xs))"
    proof (cases "?bsz = 0")
      case True
      then have "?C - ?E = 0" using ub by simp
      then show ?thesis using True EC len by simp
    next
      case False
      have "wr ?d ?E 0 ?bsz = Inr (store ?d ?E (take (unat ?bsz) (drop 0 xs)))"
        using ub bn lx EC len by (intro writesD [OF wr]) simp_all
      then show ?thesis using False en ub by simp
    qed
    let ?d1 = "store ?d ?E (take (?C - ?E) xs)"
    have l1: "length ?d1 = ?C" using len EC bn lx by (simp add: length_store)
    have "wr ?d1 0 (unat ?bsz) (n - ?bsz) =
          Inr (store ?d1 0 (take (unat (n - ?bsz)) (drop (unat ?bsz) xs)))"
      using ub ul bn lx l1 room by (intro writesD [OF wr]) simp_all
    then have w2: "wr ?d1 0 (unat ?bsz) (n - ?bsz) = Inr (store ?d1 0 (drop (?C - ?E) xs))"
      using ub ul lx by simp
    show ?thesis using True w w1 w2 len lx by (simp add: Let_def e'_def ring_store_def)
  qed
  have r: "push_back_with wr cb n = Inr (cb1\<lparr>data := ring_store ?d ?E xs, end_pos := e'\<rparr>)"
    using e tail by (simp add: push_back_with_def Let_def)
  have res: "cb_wf (cb1\<lparr>data := ring_store ?d ?E xs, end_pos := e'\<rparr>) \<and>
             cb_contents (cb1\<lparr>data := ring_store ?d ?E xs, end_pos := e'\<rparr>) = cb_contents cb @ xs"
  proof (rule append_result [where ?s0.0 = "unat (size_cb cb)" and ?cb1.0 = cb1])
    show "length (data cb1) = unat (capacity cb1)" by (rule len)
    show "layout ?C (unat (start_pos cb1)) (unat (end_pos cb1)) (unat (size_cb cb))"
      using lay en by simp
    show "unat (size_cb cb1) = unat (size_cb cb) + length xs" using sz lx by simp
    show "unat (size_cb cb) + length xs \<le> ?C" using room lx by simp
    show "\<forall>i. i < unat (size_cb cb) \<longrightarrow>
            data cb1 ! phys ?C (unat (start_pos cb1)) i = cb_contents cb ! i" by (rule old)
    show "length (cb_contents cb) = unat (size_cb cb)" by simp
    show "unat e' = (if ?C < unat (end_pos cb1) + length xs
                    then unat (end_pos cb1) + length xs - ?C
                    else unat (end_pos cb1) + length xs)" using ue' en lx by simp
    show "cb1\<lparr>data := ring_store ?d ?E xs, end_pos := e'\<rparr> =
          cb1\<lparr>data := ring_store (data cb1) (unat (end_pos cb1)) xs, end_pos := e'\<rparr>"
      using en by simp
  qed
  show ?thesis using r res sz cap by simp
qed

lemma push_back_correct:
  assumes wf: "cb_wf cb" and src: "unat n \<le> length src"
    and fit: "2 * unat (capacity cb) + unat n < 2 ^ 64"
  shows "\<exists>cb'. circlebuf_push_back cb src n = Inr cb' \<and> cb_wf cb' \<and>
           cb_contents cb' = cb_contents cb @ map Some (take (unat n) src) \<and>
           unat (size_cb cb') = unat (size_cb cb) + unat n \<and>
           unat (capacity cb') =
             (if unat (capacity cb) < unat (size_cb cb) + unat n
              then max (2 * unat (capacity cb)) (unat (size_cb cb) + unat n)
              else unat (capacity cb))"
  unfolding push_back_as_with
  using src by (intro push_back_with_correct [OF wf writes_memcpy _ fit]) simp_all

lemma push_back_zero_correct:
  assumes wf: "cb_wf cb" and fit: "2 * unat (capacity cb) + unat n < 2 ^ 64"
  shows "\<exists>cb'. circlebuf_push_back_zero cb n = Inr cb' \<and> cb_wf cb' \<and>
           cb_contents cb' = cb_contents cb @ replicate (unat n) (Some 0) \<and>
           unat (size_cb cb') = unat (size_cb cb) + unat n \<and>
           unat (capacity cb') =
             (if unat (capacity cb) < unat (size_cb cb) + unat n
              then max (2 * unat (capacity cb)) (unat (size_cb cb) + unat n)
              else unat (capacity cb))"
  unfolding push_back_zero_as_with
  by (intro push_back_with_correct [OF wf writes_memset _ fit]) simp

subsection \<open>Writing in front of the stored bytes: \<open>push_front\<close>, \<open>push_front_zero\<close>\<close>

lemma layout_fresh: "n \<le> C \<Longrightarrow> layout C 0 n n"
  by (auto simp: layout_def)

lemma prepend_empty:
  assumes len: "length d = C" and n: "length xs \<le> C"
  shows "layout C 0 (length xs) (length xs)"
    and "length (store d 0 xs) = C"
    and "\<And>i. i < length xs \<Longrightarrow> store d 0 xs ! phys C 0 i = xs ! i"
proof -
  show "layout C 0 (length xs) (length xs)" using n by (rule layout_fresh)
  show "length (store d 0 xs) = C" using len n by (simp add: length_store)
  fix i assume "i < length xs"
  then show "store d 0 xs ! phys C 0 i = xs ! i"
    using len n by (simp add: phys_def nth_store)
qed

lemma prepend_plain_aux:
  assumes len: "length d = C" and lay: "layout C (k + length xs) E s"
    and room: "s + length xs \<le> C" and s: "0 < s"
  shows "layout C k E (s + length xs)"
    and "length (store d k xs) = C"
    and "\<And>i. i < length xs \<Longrightarrow> store d k xs ! phys C k i = xs ! i"
    and "\<And>i. i < s \<Longrightarrow> store d k xs ! phys C k (length xs + i) = d ! phys C (k + length xs) i"
proof -
  have SC: "k + length xs < C" using lay s by (auto simp: layout_def)
  have f: "k + length xs \<le> length d" using SC len by simp
  show "layout C k E (s + length xs)"
    using lay s room by (auto simp: layout_def split: if_splits)
  show "length (store d k xs) = C" using f len by (simp add: length_store)
  { fix i assume i: "i < length xs"
    have "phys C k i = k + i" using i SC by (simp add: phys_def)
    then show "store d k xs ! phys C k i = xs ! i"
      using nth_store [OF f, of "k + i"] i SC len by simp }
  { fix i assume i: "i < s"
    have p: "phys C k (length xs + i) = phys C (k + length xs) i"
      by (simp add: phys_def add.assoc)
    have lt: "phys C (k + length xs) i < C" using lay i by (rule layout_phys_less)
    have out: "\<not> (k \<le> phys C (k + length xs) i \<and> phys C (k + length xs) i < k + length xs)"
      using lay i s room by (auto simp: layout_def phys_def split: if_splits)
    show "store d k xs ! phys C k (length xs + i) = d ! phys C (k + length xs) i"
      unfolding p using nth_store [OF f, of "phys C (k + length xs) i"] lt len out by simp }
qed

lemma prepend_plain:
  assumes len: "length d = C" and lay: "layout C S E s" and room: "s + length xs \<le> C"
    and s: "0 < s" and Sn: "length xs \<le> S"
  shows "layout C (S - length xs) E (s + length xs)"
    and "length (store d (S - length xs) xs) = C"
    and "\<And>i. i < length xs \<Longrightarrow> store d (S - length xs) xs ! phys C (S - length xs) i = xs ! i"
    and "\<And>i. i < s \<Longrightarrow>
           store d (S - length xs) xs ! phys C (S - length xs) (length xs + i) = d ! phys C S i"
proof -
  have S: "S - length xs + length xs = S" using Sn by simp
  have lay': "layout C (S - length xs + length xs) E s" using lay S by simp
  note aux = prepend_plain_aux [OF len lay' room s]
  show "layout C (S - length xs) E (s + length xs)" by (rule aux(1))
  show "length (store d (S - length xs) xs) = C" by (rule aux(2))
  show "\<And>i. i < length xs \<Longrightarrow> store d (S - length xs) xs ! phys C (S - length xs) i = xs ! i"
    by (rule aux(3))
  show "\<And>i. i < s \<Longrightarrow>
           store d (S - length xs) xs ! phys C (S - length xs) (length xs + i) = d ! phys C S i"
    using aux(4) S by simp
qed

lemma prepend_split_aux:
  assumes len: "length d = c + b" and lay: "layout (c + b) S E s"
    and room: "s + (S + b) \<le> c + b" and s: "0 < s" and b: "0 < b"
    and xs: "length xs = S + b"
  defines "d' \<equiv> store (store d 0 (drop b xs)) c (take b xs)"
  shows "layout (c + b) c E (s + length xs)"
    and "length d' = c + b"
    and "\<And>i. i < length xs \<Longrightarrow> d' ! phys (c + b) c i = xs ! i"
    and "\<And>i. i < s \<Longrightarrow> d' ! phys (c + b) c (length xs + i) = d ! phys (c + b) S i"
proof -
  have Sc: "S + s \<le> c" using room by simp
  have E: "E = S + s" using lay s Sc by (auto simp: layout_def split: if_splits)
  let ?d1 = "store d 0 (drop b xs)"
  have f1: "0 + length (drop b xs) \<le> length d" using len xs Sc by simp
  have l1: "length ?d1 = c + b" using f1 len by (simp add: length_store)
  have f2: "c + length (take b xs) \<le> length ?d1" using l1 xs by simp
  show "layout (c + b) c E (s + length xs)"
    using b E Sc s xs by (auto simp: layout_def)
  show "length d' = c + b" using f2 l1 by (simp add: d'_def length_store)
  { fix i assume i: "i < length xs"
    show "d' ! phys (c + b) c i = xs ! i"
    proof (cases "i < b")
      case True
      then have "phys (c + b) c i = c + i" by (simp add: phys_def)
      then show ?thesis
        using nth_store [OF f2, of "c + i"] True l1 xs by (simp add: d'_def)
    next
      case False
      then have p: "phys (c + b) c i = i - b" by (simp add: phys_def)
      have lt: "i - b < c" "i - b < S" using i xs Sc s False by simp_all
      have "d' ! (i - b) = ?d1 ! (i - b)"
        using nth_store [OF f2, of "i - b"] lt l1 by (simp add: d'_def)
      also have "\<dots> = drop b xs ! (i - b)"
        using nth_store [OF f1, of "i - b"] lt len xs by simp
      also have "\<dots> = xs ! i" using False xs by simp
      finally show ?thesis using p by simp
    qed }
  { fix i assume i: "i < s"
    have p: "phys (c + b) c (length xs + i) = S + i" using xs by (simp add: phys_def)
    have q: "phys (c + b) S i = S + i" using i Sc by (simp add: phys_def)
    have lt: "S + i < c" using i Sc by simp
    have "d' ! (S + i) = ?d1 ! (S + i)"
      using nth_store [OF f2, of "S + i"] lt l1 by (simp add: d'_def)
    also have "\<dots> = d ! (S + i)"
      using nth_store [OF f1, of "S + i"] lt len xs by simp
    finally show "d' ! phys (c + b) c (length xs + i) = d ! phys (c + b) S i" using p q by simp }
qed

lemma prepend_split:
  assumes len: "length d = C" and lay: "layout C S E s" and room: "s + length xs \<le> C"
    and s: "0 < s" and Sn: "S < length xs"
  shows "layout C (C - (length xs - S)) E (s + length xs)"
    and "length (store (store d 0 (drop (length xs - S) xs)) (C - (length xs - S))
                   (take (length xs - S) xs)) = C"
    and "\<And>i. i < length xs \<Longrightarrow>
           store (store d 0 (drop (length xs - S) xs)) (C - (length xs - S))
             (take (length xs - S) xs) ! phys C (C - (length xs - S)) i = xs ! i"
    and "\<And>i. i < s \<Longrightarrow>
           store (store d 0 (drop (length xs - S) xs)) (C - (length xs - S))
             (take (length xs - S) xs) ! phys C (C - (length xs - S)) (length xs + i) =
           d ! phys C S i"
proof -
  define b where "b = length xs - S"
  define c where "c = C - b"
  have b: "0 < b" and xs: "length xs = S + b" using Sn by (simp_all add: b_def)
  have C: "C = c + b" using room xs by (simp add: c_def)
  have len': "length d = c + b" using len C by simp
  have lay': "layout (c + b) S E s" using lay C by simp
  have room': "s + (S + b) \<le> c + b" using room xs C by simp
  note aux = prepend_split_aux [OF len' lay' room' s b xs]
  have cb: "C - b = c" using C by simp
  show "layout C (C - (length xs - S)) E (s + length xs)"
    using aux(1) unfolding b_def [symmetric] cb C [symmetric] .
  show "length (store (store d 0 (drop (length xs - S) xs)) (C - (length xs - S))
                   (take (length xs - S) xs)) = C"
    using aux(2) unfolding b_def [symmetric] cb C [symmetric] .
  show "\<And>i. i < length xs \<Longrightarrow>
           store (store d 0 (drop (length xs - S) xs)) (C - (length xs - S))
             (take (length xs - S) xs) ! phys C (C - (length xs - S)) i = xs ! i"
    using aux(3) unfolding b_def [symmetric] cb C [symmetric] .
  show "\<And>i. i < s \<Longrightarrow>
           store (store d 0 (drop (length xs - S) xs)) (C - (length xs - S))
             (take (length xs - S) xs) ! phys C (C - (length xs - S)) (length xs + i) =
           d ! phys C S i"
    using aux(4) unfolding b_def [symmetric] cb C [symmetric] .
qed

lemma prepend_result:
  assumes l': "length (data cb') = unat (capacity cb')"
    and lay': "layout (unat (capacity cb')) (unat (start_pos cb')) (unat (end_pos cb'))
                 (unat (size_cb cb'))"
    and sz: "unat (size_cb cb') = length xs + length ys"
    and new: "\<And>i. i < length xs \<Longrightarrow>
                data cb' ! phys (unat (capacity cb')) (unat (start_pos cb')) i = xs ! i"
    and old: "\<And>i. i < length ys \<Longrightarrow>
                data cb' ! phys (unat (capacity cb')) (unat (start_pos cb')) (length xs + i) = ys ! i"
  shows "cb_wf cb' \<and> cb_contents cb' = xs @ ys"
proof -
  have wf: "cb_wf cb'" using l' lay' by (simp add: cb_wf_def)
  have "cb_contents cb' = xs @ ys"
  proof (rule cb_contents_eqI [OF lay'])
    show "length (xs @ ys) = unat (size_cb cb')" using sz by simp
  next
    fix i assume "i < unat (size_cb cb')"
    then have i: "i < length xs + length ys" using sz by simp
    show "data cb' ! phys (unat (capacity cb')) (unat (start_pos cb')) i = (xs @ ys) ! i"
    proof (cases "i < length xs")
      case True
      then show ?thesis using new [of i] by (simp add: nth_append)
    next
      case False
      then have "i = length xs + (i - length xs)" "i - length xs < length ys" using i by simp_all
      then show ?thesis using old [of "i - length xs"] False by (simp add: nth_append)
    qed
  qed
  with wf show ?thesis by simp
qed

lemma push_front_as_with:
  "circlebuf_push_front cb src n =
   push_front_with (\<lambda>dst d s k. memcpy dst d (map Some src) s k) cb n"
  by (simp add: circlebuf_push_front_def push_front_with_def)

lemma push_front_zero_as_with:
  "circlebuf_push_front_zero cb n = push_front_with (\<lambda>dst d s k. memset dst d 0 k) cb n"
  by (simp add: circlebuf_push_front_zero_def push_front_with_def)

lemma push_front_with_correct:
  assumes wf: "cb_wf cb" and wr: "writes wr xs" and lx: "length xs = unat n"
    and fit: "2 * unat (capacity cb) + unat n < 2 ^ 64"
  shows "\<exists>cb'. push_front_with wr cb n = Inr cb' \<and> cb_wf cb' \<and>
           cb_contents cb' = xs @ cb_contents cb \<and>
           unat (size_cb cb') = unat (size_cb cb) + unat n \<and>
           unat (capacity cb') =
             (if unat (capacity cb) < unat (size_cb cb) + unat n
              then max (2 * unat (capacity cb)) (unat (size_cb cb) + unat n)
              else unat (capacity cb))"
proof -
  from push_prepare [OF wf fit] obtain cb1 where
    e: "circlebuf_ensure_capacity (cb\<lparr>size_cb := size_cb cb + n\<rparr>) = Inr cb1"
    and len: "length (data cb1) = unat (capacity cb1)"
    and sz1: "size_cb cb1 = size_cb cb + n"
    and sz: "unat (size_cb cb1) = unat (size_cb cb) + unat n"
    and en: "end_pos cb1 = end_pos cb"
    and cap: "unat (capacity cb1) =
             (if unat (capacity cb) < unat (size_cb cb) + unat n
              then max (2 * unat (capacity cb)) (unat (size_cb cb) + unat n)
              else unat (capacity cb))"
    and room: "unat (size_cb cb) + unat n \<le> unat (capacity cb1)"
    and lay: "layout (unat (capacity cb1)) (unat (start_pos cb1)) (unat (end_pos cb))
                (unat (size_cb cb))"
    and old: "\<forall>i. i < unat (size_cb cb) \<longrightarrow>
              data cb1 ! phys (unat (capacity cb1)) (unat (start_pos cb1)) i = cb_contents cb ! i"
    by blast
  let ?C = "unat (capacity cb1)" and ?S = "unat (start_pos cb1)" and ?E = "unat (end_pos cb)"
  let ?n = "unat n" and ?s = "unat (size_cb cb)"
  let ?d = "data cb1"
  have room': "?s + length xs \<le> ?C" using room lx by simp
  have nC: "?n \<le> ?C" using room by simp
  have goal: "\<exists>cb'. (if size_cb cb1 = n then
         and_then (wr (data cb1) 0 0 n) (\<lambda>d.
         Inr (cb1\<lparr>data := d, start_pos := 0, end_pos := n\<rparr>))
       else if start_pos cb1 < n then
         let back_size = n - start_pos cb1 in
         and_then (if start_pos cb1 \<noteq> 0
                   then wr (data cb1) 0 (unat back_size) (start_pos cb1)
                   else Inr (data cb1)) (\<lambda>d.
         let start_pos' = capacity cb1 - back_size in
         and_then (wr d (unat start_pos') 0 back_size) (\<lambda>d.
         Inr (cb1\<lparr>data := d, start_pos := start_pos'\<rparr>)))
       else
         let start_pos' = start_pos cb1 - n in
         and_then (wr (data cb1) (unat start_pos') 0 n) (\<lambda>d.
         Inr (cb1\<lparr>data := d, start_pos := start_pos'\<rparr>))) = Inr cb' \<and>
       cb_wf cb' \<and> cb_contents cb' = xs @ cb_contents cb \<and> size_cb cb' = size_cb cb1 \<and>
       capacity cb' = capacity cb1"
  proof (cases "size_cb cb = 0")
    case True
    then have s0: "?s = 0" by simp
    have c: "size_cb cb1 = n" using True sz1 by simp
    have w: "wr ?d 0 0 n = Inr (store ?d 0 (take ?n (drop 0 xs)))"
      using lx nC len by (intro writesD [OF wr]) simp_all
    let ?cb' = "cb1\<lparr>data := store ?d 0 xs, start_pos := 0, end_pos := n\<rparr>"
    note pe = prepend_empty [OF len, of xs]
    have "cb_wf ?cb' \<and> cb_contents ?cb' = xs @ cb_contents cb"
    proof (rule prepend_result)
      show "length (data ?cb') = unat (capacity ?cb')" using pe(2) lx nC by simp
      show "layout (unat (capacity ?cb')) (unat (start_pos ?cb')) (unat (end_pos ?cb'))
              (unat (size_cb ?cb'))" using pe(1) lx nC c by simp
      show "unat (size_cb ?cb') = length xs + length (cb_contents cb)" using c lx s0 by simp
      show "\<And>i. i < length xs \<Longrightarrow>
              data ?cb' ! phys (unat (capacity ?cb')) (unat (start_pos ?cb')) i = xs ! i"
        using pe(3) lx nC by simp
      show "\<And>i. i < length (cb_contents cb) \<Longrightarrow>
              data ?cb' ! phys (unat (capacity ?cb')) (unat (start_pos ?cb')) (length xs + i) =
              cb_contents cb ! i" using s0 by simp
    qed
    then show ?thesis using c w lx by simp
  next
    case False
    then have spos: "0 < ?s" by (simp add: unat_gt_0)
    have c: "size_cb cb1 \<noteq> n" using False sz1 by simp
    show ?thesis
    proof (cases "start_pos cb1 < n")
      case True
      then have Sn: "?S < length xs" using lx by (simp add: word_less_nat_alt)
      let ?bsz = "n - start_pos cb1"
      have ub: "unat ?bsz = length xs - ?S"
        using Sn lx by (simp add: unat_sub word_le_nat_alt)
      have ust: "unat (capacity cb1 - ?bsz) = ?C - (length xs - ?S)"
        using ub nC lx by (simp add: unat_sub word_le_nat_alt)
      let ?d1 = "store ?d 0 (drop (length xs - ?S) xs)"
      have l1: "length ?d1 = ?C" using len Sn nC lx by (simp add: length_store)
      have w1: "(if start_pos cb1 \<noteq> 0 then wr ?d 0 (unat ?bsz) (start_pos cb1) else Inr ?d)
                = Inr ?d1"
      proof (cases "start_pos cb1 = 0")
        case True
        then show ?thesis by simp
      next
        case False
        have "wr ?d 0 (unat ?bsz) (start_pos cb1) =
              Inr (store ?d 0 (take ?S (drop (unat ?bsz) xs)))"
          using ub Sn lx nC len by (intro writesD [OF wr]) simp_all
        then show ?thesis using False ub Sn by simp
      qed
      have "wr ?d1 (unat (capacity cb1 - ?bsz)) 0 ?bsz =
            Inr (store ?d1 (unat (capacity cb1 - ?bsz)) (take (unat ?bsz) (drop 0 xs)))"
        using ub ust Sn lx nC l1 by (intro writesD [OF wr]) simp_all
      then have w2: "wr ?d1 (unat (capacity cb1 - ?bsz)) 0 ?bsz =
            Inr (store ?d1 (?C - (length xs - ?S)) (take (length xs - ?S) xs))"
        using ub ust by simp
      let ?d2 = "store ?d1 (?C - (length xs - ?S)) (take (length xs - ?S) xs)"
      let ?cb' = "cb1\<lparr>data := ?d2, start_pos := capacity cb1 - ?bsz\<rparr>"
      note ps = prepend_split [OF len _ room' spos Sn, of ?E]
      have "cb_wf ?cb' \<and> cb_contents ?cb' = xs @ cb_contents cb"
      proof (rule prepend_result)
        show "length (data ?cb') = unat (capacity ?cb')" using ps(2) [OF lay] by simp
        show "layout (unat (capacity ?cb')) (unat (start_pos ?cb')) (unat (end_pos ?cb'))
                (unat (size_cb ?cb'))" using ps(1) [OF lay] ust en sz lx by simp
        show "unat (size_cb ?cb') = length xs + length (cb_contents cb)" using sz lx by simp
        show "\<And>i. i < length xs \<Longrightarrow>
                data ?cb' ! phys (unat (capacity ?cb')) (unat (start_pos ?cb')) i = xs ! i"
          using ps(3) [OF lay] ust by simp
        show "\<And>i. i < length (cb_contents cb) \<Longrightarrow>
                data ?cb' ! phys (unat (capacity ?cb')) (unat (start_pos ?cb')) (length xs + i) =
                cb_contents cb ! i" using ps(4) [OF lay] ust old by simp
      qed
      then show ?thesis using c True w1 w2 by (simp add: Let_def)
    next
      case False
      then have Sn: "length xs \<le> ?S" using lx by (simp add: word_less_nat_alt)
      have ust: "unat (start_pos cb1 - n) = ?S - length xs"
        using Sn lx by (simp add: unat_sub word_le_nat_alt)
      have SC: "?S < ?C" using lay spos by (auto simp: layout_def)
      have "wr ?d (unat (start_pos cb1 - n)) 0 n =
            Inr (store ?d (unat (start_pos cb1 - n)) (take ?n (drop 0 xs)))"
        using ust Sn lx SC len by (intro writesD [OF wr]) simp_all
      then have w: "wr ?d (unat (start_pos cb1 - n)) 0 n = Inr (store ?d (?S - length xs) xs)"
        using ust lx by simp
      let ?cb' = "cb1\<lparr>data := store ?d (?S - length xs) xs, start_pos := start_pos cb1 - n\<rparr>"
      note pp = prepend_plain [OF len _ room' spos Sn, of ?E]
      have "cb_wf ?cb' \<and> cb_contents ?cb' = xs @ cb_contents cb"
      proof (rule prepend_result)
        show "length (data ?cb') = unat (capacity ?cb')" using pp(2) [OF lay] by simp
        show "layout (unat (capacity ?cb')) (unat (start_pos ?cb')) (unat (end_pos ?cb'))
                (unat (size_cb ?cb'))" using pp(1) [OF lay] ust en sz lx by simp
        show "unat (size_cb ?cb') = length xs + length (cb_contents cb)" using sz lx by simp
        show "\<And>i. i < length xs \<Longrightarrow>
                data ?cb' ! phys (unat (capacity ?cb')) (unat (start_pos ?cb')) i = xs ! i"
          using pp(3) [OF lay] ust by simp
        show "\<And>i. i < length (cb_contents cb) \<Longrightarrow>
                data ?cb' ! phys (unat (capacity ?cb')) (unat (start_pos ?cb')) (length xs + i) =
                cb_contents cb ! i" using pp(4) [OF lay] ust old by simp
      qed
      then show ?thesis using c False w by (simp add: Let_def)
    qed
  qed
  then obtain cb' where
    r: "push_front_with wr cb n = Inr cb'" and p: "cb_wf cb'" "cb_contents cb' = xs @ cb_contents cb"
      "size_cb cb' = size_cb cb1" "capacity cb' = capacity cb1"
    using e unfolding push_front_with_def by auto
  show ?thesis using r p sz cap by simp
qed

lemma push_front_correct:
  assumes wf: "cb_wf cb" and src: "unat n \<le> length src"
    and fit: "2 * unat (capacity cb) + unat n < 2 ^ 64"
  shows "\<exists>cb'. circlebuf_push_front cb src n = Inr cb' \<and> cb_wf cb' \<and>
           cb_contents cb' = map Some (take (unat n) src) @ cb_contents cb \<and>
           unat (size_cb cb') = unat (size_cb cb) + unat n \<and>
           unat (capacity cb') =
             (if unat (capacity cb) < unat (size_cb cb) + unat n
              then max (2 * unat (capacity cb)) (unat (size_cb cb) + unat n)
              else unat (capacity cb))"
  unfolding push_front_as_with
  using src by (intro push_front_with_correct [OF wf writes_memcpy _ fit]) simp_all

lemma push_front_zero_correct:
  assumes wf: "cb_wf cb" and fit: "2 * unat (capacity cb) + unat n < 2 ^ 64"
  shows "\<exists>cb'. circlebuf_push_front_zero cb n = Inr cb' \<and> cb_wf cb' \<and>
           cb_contents cb' = replicate (unat n) (Some 0) @ cb_contents cb \<and>
           unat (size_cb cb') = unat (size_cb cb) + unat n \<and>
           unat (capacity cb') =
             (if unat (capacity cb) < unat (size_cb cb) + unat n
              then max (2 * unat (capacity cb)) (unat (size_cb cb) + unat n)
              else unat (capacity cb))"
  unfolding push_front_zero_as_with
  by (intro push_front_with_correct [OF wf writes_memset _ fit]) simp

subsection \<open>Reading and removing: peek and pop\<close>

lemma layout_start_le: "layout C S E s \<Longrightarrow> S \<le> C"
  by (auto simp: layout_def split: if_splits)

lemma peek_front_correct:
  assumes wf: "cb_wf cb" and n: "n \<le> size_cb cb"
  shows "circlebuf_peek_front cb dst n =
           Inr (if dst then Some (take (unat n) (cb_contents cb)) else None)"
proof (cases dst)
  case False
  then show ?thesis using n by (simp add: circlebuf_peek_front_def)
next
  case True
  let ?C = "unat (capacity cb)" and ?S = "unat (start_pos cb)" and ?n = "unat n"
  let ?s = "unat (size_cb cb)" and ?d = "data cb"
  have lay: "layout ?C ?S (unat (end_pos cb)) ?s" using wf by (rule cb_wf_layout)
  have len: "length ?d = ?C" using wf by (rule cb_wf_length)
  have ns: "?n \<le> ?s" using n by (simp add: word_le_nat_alt)
  have sC: "?s \<le> ?C" using wf by (rule cb_wf_size_le)
  have SC: "?S \<le> ?C" using lay by (rule layout_start_le)
  have uss: "unat (capacity cb - start_pos cb) = ?C - ?S"
    using SC by (simp add: unat_sub word_le_nat_alt)
  have nth: "cb_contents cb ! i = ?d ! phys ?C ?S i" if "i < ?n" for i
    using that ns cb_wf_nth [OF wf, of i] by simp
  show ?thesis
  proof (cases "capacity cb - start_pos cb < n")
    case w: True
    then have w': "?C - ?S < ?n" using uss by (simp add: word_less_nat_alt)
    have ul: "unat (n - (capacity cb - start_pos cb)) = ?n - (?C - ?S)"
      using w' uss by (simp add: unat_sub word_le_nat_alt)
    have r1: "mem_read ?d ?S (?C - ?S) = Inr (drop ?S ?d)"
      using SC len by (simp add: mem_read_Inr)
    have r2: "mem_read ?d 0 (?n - (?C - ?S)) = Inr (take (?n - (?C - ?S)) ?d)"
      using ns sC len by (simp add: mem_read_Inr)
    have "drop ?S ?d @ take (?n - (?C - ?S)) ?d = take ?n (cb_contents cb)"
    proof (rule nth_equalityI)
      show "length (drop ?S ?d @ take (?n - (?C - ?S)) ?d) = length (take ?n (cb_contents cb))"
        using len w' ns sC SC by simp
    next
      fix i assume "i < length (drop ?S ?d @ take (?n - (?C - ?S)) ?d)"
      then have i: "i < ?n" using len w' ns sC SC by simp
      show "(drop ?S ?d @ take (?n - (?C - ?S)) ?d) ! i = take ?n (cb_contents cb) ! i"
      proof (cases "?S + i < ?C")
        case True
        then have "i < ?C - ?S" by simp
        then show ?thesis using True i nth [OF i] len SC by (simp add: nth_append phys_def)
      next
        case False
        then have "\<not> i < ?C - ?S" by simp
        then have "(drop ?S ?d @ take (?n - (?C - ?S)) ?d) ! i = ?d ! (i - (?C - ?S))"
          using i len SC by (simp add: nth_append)
        moreover have "i - (?C - ?S) = ?S + i - ?C" using False SC by simp
        ultimately show ?thesis using i nth [OF i] False by (simp add: phys_def)
      qed
    qed
    then show ?thesis
      using True n w uss ul r1 r2 by (simp add: circlebuf_peek_front_def Let_def)
  next
    case nw: False
    then have nw': "?S + ?n \<le> ?C" using uss SC by (simp add: word_less_nat_alt)
    have r: "mem_read ?d ?S ?n = Inr (take ?n (drop ?S ?d))"
      using nw' len by (simp add: mem_read_Inr)
    have "take ?n (drop ?S ?d) = take ?n (cb_contents cb)"
    proof (rule nth_equalityI)
      show "length (take ?n (drop ?S ?d)) = length (take ?n (cb_contents cb))"
        using len nw' ns by simp
    next
      fix i assume "i < length (take ?n (drop ?S ?d))"
      then have i: "i < ?n" by simp
      then show "take ?n (drop ?S ?d) ! i = take ?n (cb_contents cb) ! i"
        using nth [OF i] nw' len by (simp add: phys_def)
    qed
    then show ?thesis
      using True n nw r by (simp add: circlebuf_peek_front_def Let_def)
  qed
qed

lemma layout_end_pos: "layout C S E s \<Longrightarrow> 0 < s \<Longrightarrow> 0 < E"
  by (auto simp: layout_def split: if_splits)

lemma peek_back_correct:
  assumes wf: "cb_wf cb" and n: "n \<le> size_cb cb"
  shows "circlebuf_peek_back cb dst n =
           Inr (if dst then Some (drop (unat (size_cb cb) - unat n) (cb_contents cb)) else None)"
proof (cases dst)
  case False
  then show ?thesis using n by (simp add: circlebuf_peek_back_def)
next
  case True
  let ?C = "unat (capacity cb)" and ?S = "unat (start_pos cb)" and ?n = "unat n"
  let ?E = "unat (end_pos cb)"
  let ?s = "unat (size_cb cb)" and ?d = "data cb"
  let ?k = "?s - ?n"
  have lay: "layout ?C ?S ?E ?s" using wf by (rule cb_wf_layout)
  have len: "length ?d = ?C" using wf by (rule cb_wf_length)
  have ns: "?n \<le> ?s" using n by (simp add: word_le_nat_alt)
  have sC: "?s \<le> ?C" using wf by (rule cb_wf_size_le)
  have EC: "?E \<le> ?C" using lay by (rule layout_end_le)
  have nth: "drop ?k (cb_contents cb) ! i = ?d ! phys ?C ?S (?k + i)" if "i < ?n" for i
    using that ns cb_wf_nth [OF wf, of "?k + i"] by simp
  let ?bsz = "if end_pos cb \<noteq> 0 then end_pos cb else capacity cb"
  show ?thesis
  proof (cases "?bsz < n")
    case w: True
    have npos: "0 < ?n" using w by (simp add: word_less_nat_alt split: if_splits)
    then have spos: "0 < ?s" using ns by simp
    have Epos: "0 < ?E" using lay spos by (rule layout_end_pos)
    then have bk: "?bsz = end_pos cb" by auto
    have En: "?E < ?n" using w bk by (simp add: word_less_nat_alt)
    have wrap: "?C < ?S + ?s" and E: "?E + ?C = ?S + ?s"
      using lay spos En ns by (auto simp: layout_def split: if_splits)
    have uf: "unat (n - end_pos cb) = ?n - ?E" using En by (simp add: unat_sub word_le_nat_alt)
    have une: "unat (capacity cb - (n - end_pos cb)) = ?C - (?n - ?E)"
      using uf ns sC by (simp add: unat_sub word_le_nat_alt)
    obtain f where f: "?n = ?E + f" "0 < f" using En by (metis less_imp_add_positive)
    obtain c where c: "?C = c + f" using f ns sC by (metis add.commute le_Suc_ex add_leE)
    have r1: "mem_read ?d 0 ?E = Inr (take ?E ?d)" using EC len by (simp add: mem_read_Inr)
    have r2: "mem_read ?d (?C - (?n - ?E)) (?n - ?E) = Inr (drop c ?d)"
      using f c len by (simp add: mem_read_Inr)
    have "drop c ?d @ take ?E ?d = drop ?k (cb_contents cb)"
    proof (rule nth_equalityI)
      show "length (drop c ?d @ take ?E ?d) = length (drop ?k (cb_contents cb))"
        using len f c ns EC by simp
    next
      fix i assume "i < length (drop c ?d @ take ?E ?d)"
      then have i: "i < ?n" using len f c EC by simp
      have Sk: "?S + ?k = c" using E f c ns by simp
      show "(drop c ?d @ take ?E ?d) ! i = drop ?k (cb_contents cb) ! i"
      proof (cases "i < f")
        case True
        then have "phys ?C ?S (?k + i) = c + i" using Sk c by (simp add: phys_def add.assoc [symmetric])
        then show ?thesis using True nth [OF i] len c by (simp add: nth_append)
      next
        case False
        then have "phys ?C ?S (?k + i) = i - f"
          using Sk c by (simp add: phys_def add.assoc [symmetric])
        then show ?thesis using False nth [OF i] len c i f by (simp add: nth_append)
      qed
    qed
    then show ?thesis
      using True n w bk uf une r1 r2 Epos
      by (simp add: circlebuf_peek_back_def Let_def)
  next
    case nw: False
    have nE: "?n \<le> ?E"
    proof (cases "?s = 0")
      case True
      then show ?thesis using ns by simp
    next
      case False
      then have "0 < ?E" using lay by (simp add: layout_end_pos)
      then have "end_pos cb \<noteq> 0" by auto
      then show ?thesis using nw by (simp add: word_less_nat_alt)
    qed
    have ue: "unat (end_pos cb - n) = ?E - ?n" using nE by (simp add: unat_sub word_le_nat_alt)
    obtain e where e: "?E = e + ?n" using nE by (metis le_add_diff_inverse2)
    have r: "mem_read ?d (?E - ?n) ?n = Inr (take ?n (drop e ?d))"
      using e EC len by (simp add: mem_read_Inr)
    have "take ?n (drop e ?d) = drop ?k (cb_contents cb)"
    proof (rule nth_equalityI)
      show "length (take ?n (drop e ?d)) = length (drop ?k (cb_contents cb))"
        using len e EC ns by simp
    next
      fix i assume "i < length (take ?n (drop e ?d))"
      then have i: "i < ?n" by simp
      then have spos: "0 < ?s" using ns by simp
      have "phys ?C ?S (?k + i) = e + i"
        using lay spos e ns i EC by (auto simp: layout_def phys_def split: if_splits)
      then show "take ?n (drop e ?d) ! i = drop ?k (cb_contents cb) ! i"
        using nth [OF i] i e EC len by simp
    qed
    then show ?thesis
      using True n nw ue r by (simp add: circlebuf_peek_back_def Let_def)
  qed
qed

lemma phys_phys:
  "S < C \<Longrightarrow> n + i \<le> C \<Longrightarrow> phys C (phys C S n) i = phys C S (n + i)"
  by (auto simp: phys_def)

lemma layout_drop:
  "layout C S E s \<Longrightarrow> n < s \<Longrightarrow> layout C (phys C S n) E (s - n)"
  by (auto simp: layout_def phys_def split: if_splits)

lemma layout_take:
  "layout C S E s \<Longrightarrow> n < s \<Longrightarrow>
   layout C S (if E \<le> n then C - (n - E) else E - n) (s - n)"
  by (auto simp: layout_def split: if_splits)

lemma pop_front_correct:
  assumes wf: "cb_wf cb" and n: "n \<le> size_cb cb" and fit: "2 * unat (capacity cb) < 2 ^ 64"
  shows "\<exists>cb'. circlebuf_pop_front cb dst n =
                 Inr (cb', if dst then Some (take (unat n) (cb_contents cb)) else None) \<and>
           cb_wf cb' \<and> cb_contents cb' = drop (unat n) (cb_contents cb) \<and>
           unat (size_cb cb') = unat (size_cb cb) - unat n \<and>
           capacity cb' = capacity cb"
proof -
  let ?C = "unat (capacity cb)" and ?S = "unat (start_pos cb)" and ?n = "unat n"
  let ?E = "unat (end_pos cb)" and ?s = "unat (size_cb cb)" and ?d = "data cb"
  let ?out = "if dst then Some (take ?n (cb_contents cb)) else None"
  have lay: "layout ?C ?S ?E ?s" using wf by (rule cb_wf_layout)
  have len: "length ?d = ?C" using wf by (rule cb_wf_length)
  have ns: "?n \<le> ?s" using n by (simp add: word_le_nat_alt)
  have sC: "?s \<le> ?C" using wf by (rule cb_wf_size_le)
  have us: "unat (size_cb cb - n) = ?s - ?n" using n by (simp add: unat_sub)
  have pk: "circlebuf_peek_front cb dst n = Inr ?out" using wf n by (rule peek_front_correct)
  show ?thesis
  proof (cases "size_cb cb - n = 0")
    case True
    then have eq: "?s - ?n = 0" using us by simp
    let ?cb' = "cb\<lparr>size_cb := size_cb cb - n, start_pos := 0, end_pos := 0\<rparr>"
    have r: "circlebuf_pop_front cb dst n = Inr (?cb', ?out)"
      using pk True by (simp add: circlebuf_pop_front_def Let_def)
    have w: "cb_wf ?cb'" using len True by (simp add: cb_wf_def layout_def)
    have c: "cb_contents ?cb' = drop ?n (cb_contents cb)"
      using True eq by (simp add: cb_contents_def)
    show ?thesis using r w c us by auto
  next
    case False
    then have lt: "?n < ?s" using us ns by (simp add: unat_eq_0 [symmetric] del: unat_eq_0)
    have SC: "?S < ?C" using lay lt by (auto simp: layout_def)
    have ua: "unat (start_pos cb + n) = ?S + ?n"
      using SC lt sC fit by (intro unat_add_nowrap) simp
    define st where "st = (if start_pos cb + n \<ge> capacity cb
                           then start_pos cb + n - capacity cb else start_pos cb + n)"
    have ust: "unat st = phys ?C ?S ?n"
      using ua by (auto simp: st_def phys_def word_le_nat_alt unat_sub)
    let ?cb' = "cb\<lparr>size_cb := size_cb cb - n, start_pos := st\<rparr>"
    have r: "circlebuf_pop_front cb dst n = Inr (?cb', ?out)"
      using pk False by (simp add: circlebuf_pop_front_def Let_def st_def)
    have lay': "layout (unat (capacity ?cb')) (unat (start_pos ?cb')) (unat (end_pos ?cb'))
                  (unat (size_cb ?cb'))"
      using layout_drop [OF lay lt] ust us by simp
    have w: "cb_wf ?cb'" using len lay' by (simp add: cb_wf_def)
    have c: "cb_contents ?cb' = drop ?n (cb_contents cb)"
    proof (rule cb_contents_eqI [OF lay'])
      show "length (drop ?n (cb_contents cb)) = unat (size_cb ?cb')" using us by simp
    next
      fix i assume "i < unat (size_cb ?cb')"
      then have i: "?n + i < ?s" using us by simp
      have "phys ?C (phys ?C ?S ?n) i = phys ?C ?S (?n + i)"
        using SC i sC by (intro phys_phys) simp_all
      then show "data ?cb' ! phys (unat (capacity ?cb')) (unat (start_pos ?cb')) i =
                 drop ?n (cb_contents cb) ! i"
        using ust cb_wf_nth [OF wf i] i by simp
    qed
    show ?thesis using r w c us by auto
  qed
qed

lemma pop_back_correct:
  assumes wf: "cb_wf cb" and n: "n \<le> size_cb cb"
  shows "\<exists>cb'. circlebuf_pop_back cb dst n =
                 Inr (cb', if dst then Some (drop (unat (size_cb cb) - unat n) (cb_contents cb))
                           else None) \<and>
           cb_wf cb' \<and> cb_contents cb' = take (unat (size_cb cb) - unat n) (cb_contents cb) \<and>
           unat (size_cb cb') = unat (size_cb cb) - unat n \<and>
           capacity cb' = capacity cb"
proof -
  let ?C = "unat (capacity cb)" and ?S = "unat (start_pos cb)" and ?n = "unat n"
  let ?E = "unat (end_pos cb)" and ?s = "unat (size_cb cb)" and ?d = "data cb"
  let ?out = "if dst then Some (drop (?s - ?n) (cb_contents cb)) else None"
  have lay: "layout ?C ?S ?E ?s" using wf by (rule cb_wf_layout)
  have len: "length ?d = ?C" using wf by (rule cb_wf_length)
  have ns: "?n \<le> ?s" using n by (simp add: word_le_nat_alt)
  have sC: "?s \<le> ?C" using wf by (rule cb_wf_size_le)
  have us: "unat (size_cb cb - n) = ?s - ?n" using n by (simp add: unat_sub)
  have pk: "circlebuf_peek_back cb dst n = Inr ?out" using wf n by (rule peek_back_correct)
  show ?thesis
  proof (cases "size_cb cb - n = 0")
    case True
    then have eq: "?s - ?n = 0" using us by simp
    let ?cb' = "cb\<lparr>size_cb := size_cb cb - n, start_pos := 0, end_pos := 0\<rparr>"
    have r: "circlebuf_pop_back cb dst n = Inr (?cb', ?out)"
      using pk True by (simp add: circlebuf_pop_back_def Let_def)
    have w: "cb_wf ?cb'" using len True by (simp add: cb_wf_def layout_def)
    have c: "cb_contents ?cb' = take (?s - ?n) (cb_contents cb)"
      using True eq by (simp add: cb_contents_def)
    show ?thesis using r w c us by auto
  next
    case False
    then have lt: "?n < ?s" using us ns by (simp add: unat_eq_0 [symmetric] del: unat_eq_0)
    define en where "en = (if end_pos cb \<le> n
                           then capacity cb - (n - end_pos cb) else end_pos cb - n)"
    have uen: "unat en = (if ?E \<le> ?n then ?C - (?n - ?E) else ?E - ?n)"
    proof (cases "end_pos cb \<le> n")
      case True
      then have a: "unat (n - end_pos cb) = ?n - ?E" by (simp add: unat_sub)
      then have "n - end_pos cb \<le> capacity cb" using lt sC by (simp add: word_le_nat_alt)
      then show ?thesis using True a by (simp add: en_def unat_sub word_le_nat_alt)
    next
      case False
      then show ?thesis by (simp add: en_def unat_sub word_le_nat_alt)
    qed
    let ?cb' = "cb\<lparr>size_cb := size_cb cb - n, end_pos := en\<rparr>"
    have r: "circlebuf_pop_back cb dst n = Inr (?cb', ?out)"
      using pk False by (auto simp: circlebuf_pop_back_def Let_def en_def)
    have lay': "layout (unat (capacity ?cb')) (unat (start_pos ?cb')) (unat (end_pos ?cb'))
                  (unat (size_cb ?cb'))"
      using layout_take [OF lay lt] uen us by simp
    have w: "cb_wf ?cb'" using len lay' by (simp add: cb_wf_def)
    have c: "cb_contents ?cb' = take (?s - ?n) (cb_contents cb)"
    proof (rule cb_contents_eqI [OF lay'])
      show "length (take (?s - ?n) (cb_contents cb)) = unat (size_cb ?cb')" using us by simp
    next
      fix i assume "i < unat (size_cb ?cb')"
      then have i: "i < ?s - ?n" using us by simp
      then have i': "i < ?s" by simp
      show "data ?cb' ! phys (unat (capacity ?cb')) (unat (start_pos ?cb')) i =
                 take (?s - ?n) (cb_contents cb) ! i"
        using cb_wf_nth [OF wf i'] i by simp
    qed
    show ?thesis using r w c us by auto
  qed
qed

subsection \<open>\<open>circlebuf_data\<close>, \<open>circlebuf_reserve\<close>, \<open>circlebuf_upsize\<close>, \<open>circlebuf_place\<close>\<close>

lemma circlebuf_data_correct:
  assumes wf: "cb_wf cb" and fit: "2 * unat (capacity cb) < 2 ^ 64" and idx: "idx < size_cb cb"
  shows "\<exists>off. circlebuf_data cb idx = Some off \<and>
           unat off = (unat (start_pos cb) + unat idx) mod unat (capacity cb) \<and>
           unat off < length (data cb) \<and>
           data cb ! unat off = cb_contents cb ! unat idx"
proof -
  let ?C = "unat (capacity cb)" and ?S = "unat (start_pos cb)" and ?i = "unat idx"
  have lay: "layout ?C ?S (unat (end_pos cb)) (unat (size_cb cb))" using wf by (rule cb_wf_layout)
  have len: "length (data cb) = ?C" using wf by (rule cb_wf_length)
  have i: "?i < unat (size_cb cb)" using idx by (simp add: word_less_nat_alt)
  have sC: "unat (size_cb cb) \<le> ?C" using wf by (rule cb_wf_size_le)
  have SC: "?S < ?C" using lay i by (auto simp: layout_def)
  have ua: "unat (start_pos cb + idx) = ?S + ?i"
    using SC i sC fit by (intro unat_add_nowrap) simp
  define off where "off = (if start_pos cb + idx \<ge> capacity cb
                            then start_pos cb + idx - capacity cb else start_pos cb + idx)"
  have uo: "unat off = phys ?C ?S ?i"
    using ua by (auto simp: off_def phys_def word_le_nat_alt unat_sub)
  have r: "circlebuf_data cb idx = Some off"
    using idx by (simp add: circlebuf_data_def Let_def off_def)
  have m: "(?S + ?i) mod ?C = phys ?C ?S ?i" using lay i by (rule layout_phys_mod)
  have l: "phys ?C ?S ?i < ?C" using lay i by (rule layout_phys_less)
  show ?thesis using r uo m l len cb_wf_nth [OF wf i] by simp
qed

lemma circlebuf_data_null: "circlebuf_data cb idx = None \<longleftrightarrow> idx \<ge> size_cb cb"
  by (simp add: circlebuf_data_def Let_def)

lemma reserve_correct:
  assumes wf: "cb_wf cb"
  shows "\<exists>cb'. circlebuf_reserve cb c = Inr cb' \<and> cb_wf cb' \<and>
           cb_contents cb' = cb_contents cb \<and> size_cb cb' = size_cb cb \<and>
           capacity cb' = max c (capacity cb)"
proof (cases "c \<le> capacity cb")
  case True
  then show ?thesis using wf by (simp add: circlebuf_reserve_def max_def)
next
  case False
  then have gt: "capacity cb < c" by simp
  from grow_correct [OF cb_wf_length [OF wf] cb_wf_layout [OF wf] le_refl gt] obtain cb' where
    g: "and_then (circlebuf_reorder_data (cb\<lparr>data := brealloc (data cb) c\<rparr>) c)
          (\<lambda>x. Inr (x\<lparr>capacity := c\<rparr>)) = Inr cb'"
    and p: "length (data cb') = unat c" "capacity cb' = c"
      "size_cb cb' = size_cb cb" "end_pos cb' = end_pos cb"
      "layout (unat c) (unat (start_pos cb')) (unat (end_pos cb)) (unat (size_cb cb))"
      "\<forall>i. i < unat (size_cb cb) \<longrightarrow> data cb' ! phys (unat c) (unat (start_pos cb')) i =
              data cb ! phys (unat (capacity cb)) (unat (start_pos cb)) i"
    by blast
  have r: "circlebuf_reserve cb c = Inr cb'" using False g by (simp add: circlebuf_reserve_def)
  have w: "cb_wf cb'" using p by (simp add: cb_wf_def)
  have lay': "layout (unat (capacity cb')) (unat (start_pos cb')) (unat (end_pos cb'))
                (unat (size_cb cb'))" using p by simp
  have ct: "cb_contents cb' = cb_contents cb"
  proof (rule cb_contents_eqI [OF lay'])
    show "length (cb_contents cb) = unat (size_cb cb')" using p by simp
  next
    fix i assume "i < unat (size_cb cb')"
    then have i: "i < unat (size_cb cb)" using p by simp
    show "data cb' ! phys (unat (capacity cb')) (unat (start_pos cb')) i = cb_contents cb ! i"
      using p(2,6) i cb_wf_nth [OF wf i] by simp
  qed
  have "max c (capacity cb) = c" using gt by (intro max_absorb1 order_less_imp_le)
  then show ?thesis using r w ct p(2,3) by simp
qed

lemma upsize_correct:
  assumes wf: "cb_wf cb" and fit: "2 * unat (capacity cb) + unat sz < 2 ^ 64"
  shows "\<exists>cb'. circlebuf_upsize cb sz = Inr cb' \<and> cb_wf cb' \<and>
           cb_contents cb' =
             cb_contents cb @ replicate (unat sz - unat (size_cb cb)) (Some 0) \<and>
           unat (size_cb cb') = max (unat (size_cb cb)) (unat sz) \<and>
           unat (capacity cb') =
             (if unat (capacity cb) < unat sz
              then max (2 * unat (capacity cb)) (unat sz) else unat (capacity cb))"
proof (cases "sz \<le> size_cb cb")
  case True
  then have le: "unat sz \<le> unat (size_cb cb)" by (simp add: word_le_nat_alt)
  then have "unat sz \<le> unat (capacity cb)" using cb_wf_size_le [OF wf] by simp
  then show ?thesis using True wf le by (simp add: upsize_as_with max_def)
next
  case False
  then have lt: "unat (size_cb cb) < unat sz" by (simp add: word_le_nat_alt)
  let ?n = "sz - size_cb cb"
  have un: "unat ?n = unat sz - unat (size_cb cb)"
    using False by (simp add: unat_sub word_le_nat_alt)
  have fit': "2 * unat (capacity cb) + unat ?n < 2 ^ 64" using fit un by simp
  have "length (replicate (unat ?n) (Some (0::byte))) = unat ?n" by simp
  from push_back_with_correct [OF wf writes_memset this fit'] obtain cb' where
    r: "push_back_with (\<lambda>dst d s k. memset dst d 0 k) cb ?n = Inr cb'"
    and p: "cb_wf cb'" "cb_contents cb' = cb_contents cb @ replicate (unat ?n) (Some 0)"
      "unat (size_cb cb') = unat (size_cb cb) + unat ?n"
      "unat (capacity cb') =
             (if unat (capacity cb) < unat (size_cb cb) + unat ?n
              then max (2 * unat (capacity cb)) (unat (size_cb cb) + unat ?n)
              else unat (capacity cb))"
    by blast
  show ?thesis using False r p un lt by (simp add: upsize_as_with max_def)
qed

lemma overwrite_cells:
  assumes len: "length d = C" and lay: "layout C S E s" and room: "pos + length xs \<le> s"
  shows "phys C S pos \<le> C"
    and "length (ring_store d (phys C S pos) xs) = C"
    and "\<And>i. i < s \<Longrightarrow>
           ring_store d (phys C S pos) xs ! phys C S i =
             (if pos \<le> i \<and> i < pos + length xs then xs ! (i - pos) else d ! phys C S i)"
proof -
  have sC: "s \<le> C" using lay by (simp add: layout_def)
  show p: "phys C S pos \<le> C"
    using lay room sC by (auto simp: layout_def phys_def split: if_splits)
  have n: "length xs \<le> length d" using room sC len by simp
  show "length (ring_store d (phys C S pos) xs) = C"
    using p n len by (simp add: length_ring_store)
  fix i assume i: "i < s"
  have j: "phys C S i < length d" using lay i len by (simp add: layout_phys_less)
  have p': "phys C S pos \<le> length d" using p len by simp
  show "ring_store d (phys C S pos) xs ! phys C S i =
             (if pos \<le> i \<and> i < pos + length xs then xs ! (i - pos) else d ! phys C S i)"
    unfolding nth_ring_store [OF p' n j]
    using lay room i len sC by (auto simp: layout_def phys_def split: if_splits)
qed

lemma place_as_upsize:
  "circlebuf_place cb position src n =
     and_then (circlebuf_upsize cb (position + n)) (\<lambda>cb.
        let position = position + start_pos cb;
            position = (if position \<ge> capacity cb then position - capacity cb else position);
            data_end_pos = position + n
        in if data_end_pos > capacity cb then
             let back_size = data_end_pos - capacity cb;
                 loop_size = n - back_size
             in and_then (memcpy (data cb) (unat position) (map Some src) 0 loop_size) (\<lambda>d.
                and_then (memcpy d 0 (map Some src) (unat loop_size) back_size) (\<lambda>d.
                Inr (cb\<lparr>data := d\<rparr>)))
           else and_then (memcpy (data cb) (unat position) (map Some src) 0 n) (\<lambda>d.
                Inr (cb\<lparr>data := d\<rparr>)))"
proof -
  have "(if position + n > size_cb cb then circlebuf_upsize cb (position + n) else Inr cb) =
        circlebuf_upsize cb (position + n)"
    by (simp add: upsize_as_with not_less)
  then show ?thesis by (simp add: circlebuf_place_def Let_def)
qed

lemma place_correct:
  assumes wf: "cb_wf cb" and src: "unat n \<le> length src"
    and fit: "2 * unat (capacity cb) + unat pos + unat n < 2 ^ 63"
  shows "\<exists>cb'. circlebuf_place cb pos src n = Inr cb' \<and> cb_wf cb' \<and>
           unat (size_cb cb') = max (unat (size_cb cb)) (unat pos + unat n) \<and>
           cb_contents cb' =
             take (unat pos)
               (cb_contents cb @ replicate (unat pos + unat n - unat (size_cb cb)) (Some 0)) @
             map Some (take (unat n) src) @
             drop (unat pos + unat n)
               (cb_contents cb @ replicate (unat pos + unat n - unat (size_cb cb)) (Some 0)) \<and>
           unat (capacity cb') =
             (if unat (capacity cb) < unat pos + unat n
              then max (2 * unat (capacity cb)) (unat pos + unat n) else unat (capacity cb))"
proof -
  let ?p = "unat pos" and ?n = "unat n" and ?s = "unat (size_cb cb)"
  let ?xs = "map Some (take ?n src)"
  let ?P = "cb_contents cb @ replicate (?p + ?n - ?s) (Some 0)"
  have big: "(2::nat) ^ 64 = 2 * 2 ^ 63" by simp
  have uep: "unat (pos + n) = ?p + ?n"
    using fit big by (intro unat_add_nowrap) simp
  have fit1: "2 * unat (capacity cb) + unat (pos + n) < 2 ^ 64" using fit uep big by simp
  from upsize_correct [OF wf fit1] obtain cb1 where
    u: "circlebuf_upsize cb (pos + n) = Inr cb1"
    and wf1: "cb_wf cb1"
    and c1: "cb_contents cb1 = ?P"
    and s1: "unat (size_cb cb1) = max ?s (?p + ?n)"
    and cap1: "unat (capacity cb1) =
             (if unat (capacity cb) < ?p + ?n
              then max (2 * unat (capacity cb)) (?p + ?n) else unat (capacity cb))"
    using uep by auto
  let ?C = "unat (capacity cb1)" and ?S = "unat (start_pos cb1)" and ?d = "data cb1"
  let ?s1 = "unat (size_cb cb1)"
  have lay: "layout ?C ?S (unat (end_pos cb1)) ?s1" using wf1 by (rule cb_wf_layout)
  have len: "length ?d = ?C" using wf1 by (rule cb_wf_length)
  have sC: "?s1 \<le> ?C" using wf1 by (rule cb_wf_size_le)
  have SC: "?S \<le> ?C" using lay by (rule layout_start_le)
  have room: "?p + length ?xs \<le> ?s1" using s1 src by simp
  have lx: "length ?xs = ?n" using src by simp
  have C2: "2 * ?C < 2 ^ 64" using cap1 fit big by (simp split: if_splits)
  note oc = overwrite_cells [OF len lay room]
  let ?q = "phys ?C ?S ?p"
  have wr: "writes (\<lambda>dst d s k. memcpy dst d (map Some src) s k) ?xs"
    using src by (rule writes_memcpy)
  have upos: "unat (pos + start_pos cb1) = ?p + ?S"
    using room sC SC C2 by (intro unat_add_nowrap) simp
  let ?position = "if pos + start_pos cb1 \<ge> capacity cb1
                   then pos + start_pos cb1 - capacity cb1 else pos + start_pos cb1"
  have uq: "unat ?position = ?q"
    using upos by (auto simp: phys_def word_le_nat_alt unat_sub add.commute)
  have "unat ?position + ?n < 2 ^ 64" using uq oc(1) room sC C2 lx by simp
  then have ude: "unat (?position + n) = ?q + ?n"
    using unat_add_nowrap [of ?position n] uq by simp
  let ?bsz = "?position + n - capacity cb1"
  have body: "(if ?position + n > capacity cb1 then
                and_then (memcpy ?d (unat ?position) (map Some src) 0 (n - ?bsz)) (\<lambda>d.
                and_then (memcpy d 0 (map Some src) (unat (n - ?bsz)) ?bsz) (\<lambda>d.
                Inr (cb1\<lparr>data := d\<rparr>)))
           else and_then (memcpy ?d (unat ?position) (map Some src) 0 n) (\<lambda>d.
                Inr (cb1\<lparr>data := d\<rparr>))) = Inr (cb1\<lparr>data := ring_store ?d ?q ?xs\<rparr>)"
  proof (cases "?position + n > capacity cb1")
    case False
    then have "\<not> ?C < unat (?position + n)" unfolding word_less_nat_alt .
    then have nw: "?q + ?n \<le> ?C" unfolding ude by simp
    have a1: "0 + unat n \<le> length ?xs" using lx by simp
    have a2: "?q + unat n \<le> length ?d" using nw len by simp
    have "memcpy ?d ?q (map Some src) 0 n = Inr (store ?d ?q (take ?n (drop 0 ?xs)))"
      by (rule writesD [OF wr a1 a2])
    then have "memcpy ?d (unat ?position) (map Some src) 0 n = Inr (store ?d ?q ?xs)"
      unfolding uq using lx by simp
    then show ?thesis using nw len lx
      by (simp only: False if_False and_then_Inr) (simp add: ring_store_def)
  next
    case True
    then have "?C < unat (?position + n)" unfolding word_less_nat_alt .
    then have w: "?C < ?q + ?n" unfolding ude .
    have cl: "capacity cb1 \<le> ?position + n" using True by (rule order_less_imp_le)
    have ub: "unat ?bsz = ?q + ?n - ?C" unfolding unat_sub [OF cl] ude ..
    have bn: "?q + ?n - ?C \<le> ?n" using oc(1) by simp
    have bl: "?bsz \<le> n" by (rule iffD2 [OF word_le_nat_alt]) (simp only: ub bn)
    have ul: "unat (n - ?bsz) = ?C - ?q" unfolding unat_sub [OF bl] ub using w oc(1) by simp
    have a1: "0 + unat (n - ?bsz) \<le> length ?xs" unfolding ul using w lx by simp
    have a2: "?q + unat (n - ?bsz) \<le> length ?d" unfolding ul using oc(1) len by simp
    have "memcpy ?d ?q (map Some src) 0 (n - ?bsz) =
          Inr (store ?d ?q (take (unat (n - ?bsz)) (drop 0 ?xs)))"
      by (rule writesD [OF wr a1 a2])
    then have w1: "memcpy ?d (unat ?position) (map Some src) 0 (n - ?bsz) =
          Inr (store ?d ?q (take (?C - ?q) ?xs))" unfolding ul uq by simp
    let ?d1 = "store ?d ?q (take (?C - ?q) ?xs)"
    have l1: "length ?d1 = ?C" using len oc(1) w lx by (simp add: length_store)
    have b1: "unat (n - ?bsz) + unat ?bsz \<le> length ?xs"
      unfolding ul ub using w oc(1) lx by simp
    have b2: "0 + unat ?bsz \<le> length ?d1" unfolding ub using l1 room sC lx oc(1) by simp
    have "memcpy ?d1 0 (map Some src) (unat (n - ?bsz)) ?bsz =
          Inr (store ?d1 0 (take (unat ?bsz) (drop (unat (n - ?bsz)) ?xs)))"
      by (rule writesD [OF wr b1 b2])
    then have w2: "memcpy ?d1 0 (map Some src) (unat (n - ?bsz)) ?bsz =
          Inr (store ?d1 0 (drop (?C - ?q) ?xs))"
      unfolding ul ub using w lx by simp
    show ?thesis using w len lx
      by (simp only: True if_True w1 w2 and_then_Inr) (simp add: ring_store_def)
  qed
  let ?cb' = "cb1\<lparr>data := ring_store ?d ?q ?xs\<rparr>"
  have r: "circlebuf_place cb pos src n = Inr ?cb'"
    unfolding place_as_upsize u and_then_Inr Let_def by (rule body)
  have lay': "layout (unat (capacity ?cb')) (unat (start_pos ?cb')) (unat (end_pos ?cb'))
                (unat (size_cb ?cb'))" using lay by simp
  have w': "cb_wf ?cb'" using oc(2) lay by (simp add: cb_wf_def)
  have lP: "length ?P = ?s1" using s1 by (simp add: max_def)
  have ct: "cb_contents ?cb' = take ?p ?P @ ?xs @ drop (?p + ?n) ?P"
  proof (rule cb_contents_eqI [OF lay'])
    show "length (take ?p ?P @ ?xs @ drop (?p + ?n) ?P) = unat (size_cb ?cb')"
      using lP lx room by simp
  next
    fix i assume "i < unat (size_cb ?cb')"
    then have i: "i < ?s1" by simp
    have old: "?d ! phys ?C ?S i = ?P ! i" using cb_wf_nth [OF wf1 i] c1 by simp
    have "data ?cb' ! phys (unat (capacity ?cb')) (unat (start_pos ?cb')) i =
          (if ?p \<le> i \<and> i < ?p + ?n then ?xs ! (i - ?p) else ?P ! i)"
      using oc(3) [OF i] old lx by simp
    also have "\<dots> = (take ?p ?P @ ?xs @ drop (?p + ?n) ?P) ! i"
      using i lP lx room by (auto simp: nth_append min_def)
    finally show "data ?cb' ! phys (unat (capacity ?cb')) (unat (start_pos ?cb')) i =
                  (take ?p ?P @ ?xs @ drop (?p + ?n) ?P) ! i" .
  qed
  show ?thesis using r w' ct s1 cap1 by simp
qed

section \<open>Ring buffer: every operation refines the byte queue\<close>

lemma fits64: "cb_fits cb n \<Longrightarrow> 2 * unat (capacity cb) + n < 2 ^ 64"
proof -
  have "(2::nat) ^ 63 < 2 ^ 64" by simp
  then show "cb_fits cb n \<Longrightarrow> 2 * unat (capacity cb) + n < 2 ^ 64"
    unfolding cb_fits_def by (rule less_trans [rotated])
qed

lemma fits64_0: "cb_fits cb n \<Longrightarrow> 2 * unat (capacity cb) < 2 ^ 64"
  using fits64 [of cb n] by simp

lemma cb_wf_initial: "cb_wf (circlebuf_init cb)" "cb_contents (circlebuf_init cb) = []"
  "capacity (circlebuf_init cb) = 0" "size_cb (circlebuf_init cb) = 0"
  by (simp_all add: circlebuf_init_def cb_wf_def layout_def cb_contents_def)

lemma cb_wf_freed: "cb_wf (circlebuf_free cb)" "cb_contents (circlebuf_free cb) = []"
  "capacity (circlebuf_free cb) = 0" "size_cb (circlebuf_free cb) = 0"
  by (simp_all add: circlebuf_free_def cb_wf_def layout_def cb_contents_def)

lemma take_one_drop: "k < length xs \<Longrightarrow> take (Suc 0) (drop k xs) = [xs ! k]"
  by (metis Cons_nth_drop_Suc take0 take_Suc_Cons)

lemma exec_refines:
  assumes wf: "cb_wf cb" and pre: "deque_pre x (cb_contents cb)"
    and fit: "cb_fits cb (op_cost x)"
  shows "\<exists>cb'. exec x cb = Inr (cb', snd (deque_step x (cb_contents cb))) \<and>
           cb_wf cb' \<and> cb_contents cb' = fst (deque_step x (cb_contents cb)) \<and>
           (unat (capacity cb') \<le> unat (capacity cb) \<or>
            unat (capacity cb') \<le> 2 * (unat (size_cb cb) + op_cost x)) \<and>
           (x \<noteq> Init \<and> x \<noteq> Free \<longrightarrow> capacity cb \<le> capacity cb')"
proof (cases x)
  case Init
  then show ?thesis using cb_wf_initial [of cb] by simp
next
  case Free
  then show ?thesis using cb_wf_freed [of cb] by simp
next
  case (Reserve c)
  from reserve_correct [OF wf, of c] obtain cb' where
    "circlebuf_reserve cb c = Inr cb'" "cb_wf cb'" "cb_contents cb' = cb_contents cb"
    "capacity cb' = max c (capacity cb)" by blast
  then show ?thesis using Reserve
    by (auto simp: word_le_nat_alt max_def)
next
  case (PushBack src n)
  have f: "2 * unat (capacity cb) + unat n < 2 ^ 64" using fit PushBack fits64 by simp
  have s: "unat n \<le> length src" using pre PushBack by simp
  from push_back_correct [OF wf s f] show ?thesis using PushBack
    by (auto simp: word_le_nat_alt split: if_splits)
next
  case (PushFront src n)
  have f: "2 * unat (capacity cb) + unat n < 2 ^ 64" using fit PushFront fits64 by simp
  have s: "unat n \<le> length src" using pre PushFront by simp
  from push_front_correct [OF wf s f] show ?thesis using PushFront
    by (auto simp: word_le_nat_alt split: if_splits)
next
  case (PushBackZero n)
  have f: "2 * unat (capacity cb) + unat n < 2 ^ 64" using fit PushBackZero fits64 by simp
  from push_back_zero_correct [OF wf f] show ?thesis using PushBackZero
    by (auto simp: word_le_nat_alt split: if_splits)
next
  case (PushFrontZero n)
  have f: "2 * unat (capacity cb) + unat n < 2 ^ 64" using fit PushFrontZero fits64 by simp
  from push_front_zero_correct [OF wf f] show ?thesis using PushFrontZero
    by (auto simp: word_le_nat_alt split: if_splits)
next
  case (Place pos src n)
  have f: "2 * unat (capacity cb) + unat pos + unat n < 2 ^ 63"
    using fit Place by (simp add: cb_fits_def)
  have s: "unat n \<le> length src" using pre Place by simp
  from place_correct [OF wf s f] show ?thesis using Place
    by (auto simp: word_le_nat_alt Let_def split: if_splits)
next
  case (PeekFront dst n)
  have n: "n \<le> size_cb cb" using pre PeekFront by (simp add: word_le_nat_alt)
  show ?thesis using peek_front_correct [OF wf n, of dst] PeekFront wf by simp
next
  case (PeekBack dst n)
  have n: "n \<le> size_cb cb" using pre PeekBack by (simp add: word_le_nat_alt)
  show ?thesis using peek_back_correct [OF wf n, of dst] PeekBack wf by simp
next
  case (PopFront dst n)
  have n: "n \<le> size_cb cb" using pre PopFront by (simp add: word_le_nat_alt)
  from pop_front_correct [OF wf n fits64_0 [OF fit], of dst] show ?thesis using PopFront
    by auto
next
  case (PopBack dst n)
  have n: "n \<le> size_cb cb" using pre PopBack by (simp add: word_le_nat_alt)
  from pop_back_correct [OF wf n, of dst] show ?thesis using PopBack
    by auto
next
  case (DataAt idx)
  show ?thesis
  proof (cases "idx < size_cb cb")
    case True
    from circlebuf_data_correct [OF wf fits64_0 [OF fit] True] obtain off where
      o: "circlebuf_data cb idx = Some off" "unat off < length (data cb)"
        "data cb ! unat off = cb_contents cb ! unat idx" by blast
    have "mem_read (data cb) (unat off) 1 = Inr [cb_contents cb ! unat idx]"
      using o by (simp add: mem_read_Inr take_one_drop)
    then show ?thesis using DataAt o True wf by (simp add: word_less_nat_alt)
  next
    case False
    then have "circlebuf_data cb idx = None" by (simp add: circlebuf_data_null)
    then show ?thesis using DataAt False wf by (simp add: word_less_nat_alt)
  qed
qed

lemma deque_step_length: "length (fst (deque_step x q)) \<le> length q + op_cost x"
  by (cases x) (auto simp: Let_def)

lemma run_refines:
  assumes "cb_wf cb" and "deque_valid ops (cb_contents cb)"
    and "unat (size_cb cb) \<le> B" and "unat (capacity cb) \<le> 2 * B"
    and "4 * (B + trace_cost ops) < 2 ^ 63"
  shows "\<exists>cb'. run ops cb = Inr (cb', snd (deque_run ops (cb_contents cb))) \<and>
           cb_wf cb' \<and> cb_contents cb' = fst (deque_run ops (cb_contents cb))"
  using assms
proof (induction ops arbitrary: cb B)
  case Nil
  then show ?case by simp
next
  case (Cons x xs)
  let ?q = "cb_contents cb"
  have cost: "trace_cost (x # xs) = op_cost x + trace_cost xs" by (simp add: trace_cost_def)
  have pre: "deque_pre x ?q" and val: "deque_valid xs (fst (deque_step x ?q))"
    using Cons.prems(2) by simp_all
  have fit: "cb_fits cb (op_cost x)"
    using Cons.prems(4,5) cost by (simp add: cb_fits_def)
  from exec_refines [OF Cons.prems(1) pre fit] obtain cb1 where
    e: "exec x cb = Inr (cb1, snd (deque_step x ?q))"
    and wf1: "cb_wf cb1" and c1: "cb_contents cb1 = fst (deque_step x ?q)"
    and cap: "unat (capacity cb1) \<le> unat (capacity cb) \<or>
              unat (capacity cb1) \<le> 2 * (unat (size_cb cb) + op_cost x)"
    by blast
  have "unat (size_cb cb1) = length (cb_contents cb1)" by simp
  also have "\<dots> \<le> length ?q + op_cost x" unfolding c1 by (rule deque_step_length)
  finally have s1: "unat (size_cb cb1) \<le> B + op_cost x" using Cons.prems(3) by simp
  have cap1: "unat (capacity cb1) \<le> 2 * (B + op_cost x)"
    using cap Cons.prems(3,4) by auto
  have bud: "4 * ((B + op_cost x) + trace_cost xs) < 2 ^ 63"
    using Cons.prems(5) cost by (simp add: add.assoc)
  have val1: "deque_valid xs (cb_contents cb1)" using val c1 by simp
  from Cons.IH [OF wf1 val1 s1 cap1 bud] obtain cb' where
    r: "run xs cb1 = Inr (cb', snd (deque_run xs (cb_contents cb1)))"
    and wf': "cb_wf cb'" and c': "cb_contents cb' = fst (deque_run xs (cb_contents cb1))"
    by blast
  show ?case using e r wf' c' c1 by (simp add: split_beta Let_def)
qed

text \<open>
  In the byte queue, what is pushed at the back comes out at the front in the
  same order, and comes out at the back last block first.
\<close>

lemma deque_fifo:
  assumes "unat n = length a" and "unat m = length b"
  shows "snd (deque_run [PushBack a n, PushBack b m, PopFront True n, PopFront True m] []) =
           [None, None, Some (map Some a), Some (map Some b)]"
  using assms by (simp add: Let_def)

lemma deque_lifo:
  assumes "unat n = length a" and "unat m = length b"
  shows "snd (deque_run [PushBack a n, PushBack b m, PopBack True m, PopBack True n] []) =
           [None, None, Some (map Some b), Some (map Some a)]"
  using assms by (simp add: Let_def)

lemma queue_cost: "list_all is_queue_op ops \<Longrightarrow> trace_cost ops = pushed_total ops"
proof (induction ops)
  case Nil
  then show ?case by (simp add: trace_cost_def pushed_total_def)
next
  case (Cons x xs)
  then show ?case by (cases x) (simp_all add: trace_cost_def pushed_total_def)
qed

lemma queue_length:
  "list_all is_queue_op ops \<Longrightarrow> deque_valid ops q \<Longrightarrow>
   length (fst (deque_run ops q)) + popped_total ops = length q + pushed_total ops"
proof (induction ops arbitrary: q)
  case Nil
  then show ?case by (simp add: pushed_total_def popped_total_def)
next
  case (Cons x xs)
  have v: "deque_valid xs (fst (deque_step x q))" and p: "deque_pre x q"
    using Cons.prems(2) by simp_all
  have q: "list_all is_queue_op xs" and qx: "is_queue_op x" using Cons.prems(1) by simp_all
  have step: "length (fst (deque_step x q)) + popped x = length q + pushed x"
    using p qx by (cases x) simp_all
  have unfold: "fst (deque_run (x # xs) q) = fst (deque_run xs (fst (deque_step x q)))"
    by (simp add: split_beta Let_def)
  have "pushed_total (x # xs) = pushed x + pushed_total xs"
    "popped_total (x # xs) = popped x + popped_total xs"
    by (simp_all add: pushed_total_def popped_total_def)
  then show ?case using Cons.IH [OF q v] step unfold by simp
qed

text \<open>
  Claim C1. For every sequence of push_back, push_front, pop_front, pop_back
  and peek operations on a fresh buffer in which every peek and pop asks for
  at most the current size (and fewer than \<open>2^61\<close> bytes are pushed in
  all), the run succeeds and every pop and peek returns what the byte queue
  returns: pop_front the oldest bytes at the front in the order they were
  pushed (FIFO), pop_back the bytes at the back (LIFO). After the sequence
  the \<open>size\<close> field is the number of bytes pushed minus the number of bytes
  popped.
\<close>

theorem ring_buffer_queue_order:
  assumes q: "list_all is_queue_op ops" and valid: "deque_valid ops []"
    and bound: "pushed_total ops < 2 ^ 61"
  shows "\<exists>cb'. run ops (circlebuf_init cb) = Inr (cb', snd (deque_run ops [])) \<and>
           cb_contents cb' = fst (deque_run ops []) \<and>
           int (unat (size_cb cb')) = int (pushed_total ops) - int (popped_total ops)"
proof -
  let ?c0 = "circlebuf_init cb"
  have big: "(2::nat) ^ 63 = 4 * 2 ^ 61" by simp
  have v: "deque_valid ops (cb_contents ?c0)" using valid by (simp add: cb_wf_initial)
  have b: "4 * (0 + trace_cost ops) < 2 ^ 63" using bound queue_cost [OF q] big by simp
  have s0: "unat (size_cb ?c0) \<le> 0" "unat (capacity ?c0) \<le> 2 * 0"
    by (simp_all add: cb_wf_initial)
  from run_refines [OF cb_wf_initial(1) v s0 b] obtain cb' where
    r: "run ops ?c0 = Inr (cb', snd (deque_run ops (cb_contents ?c0)))"
    and c: "cb_contents cb' = fst (deque_run ops (cb_contents ?c0))" by blast
  have "unat (size_cb cb') = length (cb_contents cb')" by simp
  then have "unat (size_cb cb') + popped_total ops = pushed_total ops"
    using queue_length [OF q valid] c by (simp add: cb_wf_initial)
  then have "int (unat (size_cb cb')) = int (pushed_total ops) - int (popped_total ops)"
    by linarith
  then show ?thesis using r c by (auto simp: cb_wf_initial)
qed

theorem ring_buffer_queue_order_witness:
  "(\<exists>cb'. run [PushBack [1, 2] 2, PushBack [3] 1, PopFront True 2, PopFront True 1]
            (circlebuf_init \<lparr>data = [], size_cb = 0, start_pos = 0, end_pos = 0, capacity = 0\<rparr>) =
          Inr (cb', [None, None, Some [Some 1, Some 2], Some [Some 3]]) \<and>
          cb_contents cb' = [] \<and> int (unat (size_cb cb')) = 3 - 3) \<and>
   (\<exists>cb'. run [PushBack [1, 2] 2, PushBack [3] 1, PushFront [9] 1, PopBack True 1,
              PeekBack True 2, PopBack True 2]
            (circlebuf_init \<lparr>data = [], size_cb = 0, start_pos = 0, end_pos = 0, capacity = 0\<rparr>) =
          Inr (cb', [None, None, None, Some [Some 3], Some [Some 1, Some 2], Some [Some 1, Some 2]]) \<and>
          cb_contents cb' = [Some 9] \<and> int (unat (size_cb cb')) = 4 - 3)"
  using ring_buffer_queue_order
      [of "[PushBack [1, 2] 2, PushBack [3] 1, PopFront True 2, PopFront True 1]"
          "\<lparr>data = [], size_cb = 0, start_pos = 0, end_pos = 0, capacity = 0\<rparr>"]
    ring_buffer_queue_order
      [of "[PushBack [1, 2] 2, PushBack [3] 1, PushFront [9] 1, PopBack True 1,
              PeekBack True 2, PopBack True 2]"
          "\<lparr>data = [], size_cb = 0, start_pos = 0, end_pos = 0, capacity = 0\<rparr>"]
  by (simp add: pushed_total_def popped_total_def)

text \<open>
  Claim C2, as the code has it. On a well-formed buffer every operation, under
  its precondition (a peek or pop asks for at most the current size), returns
  a well-formed buffer: \<open>size <= capacity\<close>, and \<open>size == 0\<close> implies
  \<open>start_pos == end_pos == 0\<close>. No operation other than \<open>circlebuf_init\<close> and
  \<open>circlebuf_free\<close> decreases the \<open>capacity\<close> field.
\<close>

theorem ops_preserve_invariant:
  assumes wf: "cb_wf cb" and pre: "deque_pre x (cb_contents cb)"
    and fit: "cb_fits cb (op_cost x)"
  shows "\<exists>cb' out. exec x cb = Inr (cb', out) \<and> cb_wf cb' \<and>
           size_cb cb' \<le> capacity cb' \<and>
           (size_cb cb' = 0 \<longrightarrow> start_pos cb' = 0 \<and> end_pos cb' = 0) \<and>
           (x \<noteq> Init \<and> x \<noteq> Free \<longrightarrow> capacity cb \<le> capacity cb')"
proof -
  from exec_refines [OF wf pre fit] obtain cb' where
    e: "exec x cb = Inr (cb', snd (deque_step x (cb_contents cb)))"
    and wf': "cb_wf cb'"
    and mono: "x \<noteq> Init \<and> x \<noteq> Free \<longrightarrow> capacity cb \<le> capacity cb'"
    by blast
  have lay: "layout (unat (capacity cb')) (unat (start_pos cb')) (unat (end_pos cb'))
               (unat (size_cb cb'))" using wf' by (rule cb_wf_layout)
  have le: "size_cb cb' \<le> capacity cb'"
    using cb_wf_size_le [OF wf'] by (simp add: word_le_nat_alt)
  have z: "size_cb cb' = 0 \<longrightarrow> start_pos cb' = 0 \<and> end_pos cb' = 0"
    using lay by (auto simp: layout_def unat_eq_0 split: if_splits)
  show ?thesis using e wf' le z mono by blast
qed

theorem ops_preserve_invariant_witness:
  "\<exists>cb' out. exec (PopFront True 2)
       \<lparr>data = [Some 3, None, Some 1, Some 2], size_cb = 3, start_pos = 2,
          end_pos = 1, capacity = 4\<rparr> = Inr (cb', out) \<and> cb_wf cb' \<and>
       size_cb cb' \<le> capacity cb' \<and> 4 \<le> capacity cb'"
proof -
  let ?c = "\<lparr>data = [Some 3, None, Some 1, Some (2::byte)], size_cb = 3, start_pos = 2,
              end_pos = 1, capacity = 4\<rparr>"
  have wf: "cb_wf ?c" by (simp add: cb_wf_def layout_def)
  have pre: "deque_pre (PopFront True 2) (cb_contents ?c)" by simp
  have fit: "cb_fits ?c (op_cost (PopFront True 2))" by (simp add: cb_fits_def)
  show ?thesis using ops_preserve_invariant [OF wf pre fit] by auto
qed

text \<open>
  \<open>circlebuf_free\<close> is an operation of the buffer and resets the whole struct:
  after two bytes were pushed the capacity is 2, and freeing makes it 0.
\<close>

theorem free_decreases_capacity:
  "circlebuf_push_back (circlebuf_init \<lparr>data = [], size_cb = 0, start_pos = 0, end_pos = 0,
       capacity = 0\<rparr>) [1, 2] 2 =
     Inr \<lparr>data = [Some 1, Some 2], size_cb = 2, start_pos = 0, end_pos = 2, capacity = 2\<rparr> \<and>
   exec Free \<lparr>data = [Some 1, Some 2], size_cb = 2, start_pos = 0, end_pos = 2, capacity = 2\<rparr> =
     Inr (\<lparr>data = [], size_cb = 0, start_pos = 0, end_pos = 0, capacity = 0\<rparr>, None) \<and>
   capacity \<lparr>data = [], size_cb = 0, start_pos = 0, end_pos = 0, capacity = 0\<rparr> <
   capacity \<lparr>data = [Some 1, Some 2], size_cb = 2, start_pos = 0, end_pos = 2, capacity = 2\<rparr>"
  by (simp add: circlebuf_free_def circlebuf_init_def circlebuf_push_back_def
      circlebuf_ensure_capacity_def circlebuf_reorder_data_def brealloc_def memcpy_def
      mem_read_def mem_write_def Let_def)

text \<open>
  Claim C3, as the code has it. When the size exceeds the old capacity,
  \<open>circlebuf_ensure_capacity\<close> makes the capacity the larger of twice the old
  capacity and the size; an explicit \<open>circlebuf_reserve\<close> of a larger capacity
  makes the capacity exactly the requested one. Either growth leaves the
  logical content (the stored bytes from \<open>start_pos\<close> on, read circularly, here
  the bytes of the size before the push) unchanged, whether or not the stored
  bytes wrapped around the end of the old block.
\<close>

theorem growth_preserves_content:
  assumes wf: "cb_wf cb" and fit: "cb_fits cb 0"
  shows "(capacity cb < sz \<longrightarrow>
           (\<exists>cb'. circlebuf_ensure_capacity (cb\<lparr>size_cb := sz\<rparr>) = Inr cb' \<and>
              unat (capacity cb') = max (2 * unat (capacity cb)) (unat sz) \<and>
              size_cb cb' = sz \<and>
              cb_wf (cb'\<lparr>size_cb := size_cb cb\<rparr>) \<and>
              cb_contents (cb'\<lparr>size_cb := size_cb cb\<rparr>) = cb_contents cb)) \<and>
         (capacity cb < c \<longrightarrow>
           (\<exists>cb'. circlebuf_reserve cb c = Inr cb' \<and> capacity cb' = c \<and>
              cb_wf cb' \<and> cb_contents cb' = cb_contents cb))"
proof (intro conjI impI)
  assume gt: "capacity cb < sz"
  let ?cb0 = "cb\<lparr>size_cb := sz\<rparr>"
  let ?s = "unat (size_cb cb)"
  have lt: "unat (capacity cb) < unat sz" using gt by (simp add: word_less_nat_alt)
  have len: "length (data ?cb0) = unat (capacity ?cb0)" using wf by (simp add: cb_wf_def)
  have lay: "layout (unat (capacity ?cb0)) (unat (start_pos ?cb0)) (unat (end_pos ?cb0)) ?s"
    using wf by (simp add: cb_wf_def)
  have s0: "?s \<le> unat (size_cb ?cb0)" using cb_wf_size_le [OF wf] lt by simp
  have fit': "2 * unat (capacity ?cb0) < 2 ^ 64" using fits64_0 [OF fit] by simp
  from ensure_capacity_correct [OF len lay s0 fit'] obtain cb' where
    e: "circlebuf_ensure_capacity ?cb0 = Inr cb'"
    and p: "length (data cb') = unat (capacity cb')" "size_cb cb' = size_cb ?cb0"
      "end_pos cb' = end_pos ?cb0"
      "unat (capacity cb') =
         (if unat (capacity ?cb0) < unat (size_cb ?cb0)
          then max (2 * unat (capacity ?cb0)) (unat (size_cb ?cb0)) else unat (capacity ?cb0))"
      "layout (unat (capacity cb')) (unat (start_pos cb')) (unat (end_pos ?cb0)) ?s"
      "\<forall>i. i < ?s \<longrightarrow> data cb' ! phys (unat (capacity cb')) (unat (start_pos cb')) i =
              data ?cb0 ! phys (unat (capacity ?cb0)) (unat (start_pos ?cb0)) i"
    by blast
  let ?cb'' = "cb'\<lparr>size_cb := size_cb cb\<rparr>"
  have lay'': "layout (unat (capacity ?cb'')) (unat (start_pos ?cb'')) (unat (end_pos ?cb''))
                 (unat (size_cb ?cb''))" using p(3,5) by simp
  have w: "cb_wf ?cb''" using p(1) lay'' by (simp add: cb_wf_def)
  have ct: "cb_contents ?cb'' = cb_contents cb"
  proof (rule cb_contents_eqI [OF lay''])
    show "length (cb_contents cb) = unat (size_cb ?cb'')" by simp
  next
    fix i assume "i < unat (size_cb ?cb'')"
    then have i: "i < ?s" by simp
    show "data ?cb'' ! phys (unat (capacity ?cb'')) (unat (start_pos ?cb'')) i =
          cb_contents cb ! i"
      using p(6) i cb_wf_nth [OF wf i] by simp
  qed
  have cap: "unat (capacity cb') = max (2 * unat (capacity cb)) (unat sz)"
    using p(4) lt by simp
  show "\<exists>cb'. circlebuf_ensure_capacity ?cb0 = Inr cb' \<and>
              unat (capacity cb') = max (2 * unat (capacity cb)) (unat sz) \<and>
              size_cb cb' = sz \<and>
              cb_wf (cb'\<lparr>size_cb := size_cb cb\<rparr>) \<and>
              cb_contents (cb'\<lparr>size_cb := size_cb cb\<rparr>) = cb_contents cb"
    using e cap p(2) w ct by auto
next
  assume gt: "capacity cb < c"
  from reserve_correct [OF wf, of c] obtain cb' where
    r: "circlebuf_reserve cb c = Inr cb'" "cb_wf cb'" "cb_contents cb' = cb_contents cb"
      "capacity cb' = max c (capacity cb)" by blast
  have "max c (capacity cb) = c" using gt by (intro max_absorb1 order_less_imp_le)
  then show "\<exists>cb'. circlebuf_reserve cb c = Inr cb' \<and> capacity cb' = c \<and>
              cb_wf cb' \<and> cb_contents cb' = cb_contents cb"
    using r by auto
qed

theorem growth_preserves_content_witness:
  "(\<exists>cb'. circlebuf_ensure_capacity
            \<lparr>data = [Some 3, None, Some 1, Some 2], size_cb = 5, start_pos = 2,
               end_pos = 1, capacity = 4\<rparr> = Inr cb' \<and>
          unat (capacity cb') = 8 \<and>
          cb_contents (cb'\<lparr>size_cb := 3\<rparr>) =
          cb_contents \<lparr>data = [Some 3, None, Some 1, Some 2], size_cb = 3, start_pos = 2,
               end_pos = 1, capacity = 4\<rparr>) \<and>
   (\<exists>cb'. circlebuf_reserve
            \<lparr>data = [Some 3, None, Some 1, Some 2], size_cb = 3, start_pos = 2,
               end_pos = 1, capacity = 4\<rparr> 5 = Inr cb' \<and> capacity cb' = 5 \<and>
          cb_contents cb' =
          cb_contents \<lparr>data = [Some 3, None, Some 1, Some 2], size_cb = 3, start_pos = 2,
               end_pos = 1, capacity = 4\<rparr>)"
proof -
  let ?c = "\<lparr>data = [Some 3, None, Some 1, Some (2::byte)], size_cb = 3, start_pos = 2,
              end_pos = 1, capacity = 4\<rparr>"
  have wf: "cb_wf ?c" by (simp add: cb_wf_def layout_def)
  have fit: "cb_fits ?c 0" by (simp add: cb_fits_def)
  show ?thesis using growth_preserves_content [OF wf fit, of 5 5] by auto
qed

text \<open>
  A reserve of 5 bytes on a buffer of capacity 4 gives capacity 5, not the
  larger of twice the old capacity and the size needed, which is 8.
\<close>

theorem reserve_capacity_exact:
  "circlebuf_reserve \<lparr>data = [Some 3, None, Some 1, Some 2], size_cb = 3, start_pos = 2,
                       end_pos = 1, capacity = 4\<rparr> 5 =
     Inr \<lparr>data = [Some 3, None, Some 1, Some 1, Some 2], size_cb = 3, start_pos = 3,
           end_pos = 1, capacity = 5\<rparr> \<and>
   unat (5 :: size_t) \<noteq> max (2 * unat (4 :: size_t)) (unat (5 :: size_t))"
  by (simp add: circlebuf_reserve_def circlebuf_reorder_data_def brealloc_def memmove_def
      mem_read_def mem_write_def Let_def)

text \<open>
  Claim C6. For every offset \<open>position\<close> and block of \<open>n\<close> bytes (the sizes
  below the bound of \<open>cb_fits\<close>), \<open>circlebuf_place\<close> leaves the buffer with size
  \<open>max(old size, position + n)\<close>, with the bytes at the logical positions
  \<open>position .. position + n - 1\<close> equal to the given bytes, with every byte
  stored before outside that range unchanged, and with the bytes between the
  old size and \<open>position\<close> zero.
\<close>

theorem place_spec:
  assumes wf: "cb_wf cb" and src: "unat n \<le> length src"
    and fit: "cb_fits cb (unat pos + unat n)"
  shows "\<exists>cb'. circlebuf_place cb pos src n = Inr cb' \<and> cb_wf cb' \<and>
           unat (size_cb cb') = max (unat (size_cb cb)) (unat pos + unat n) \<and>
           (\<forall>i. i < unat n \<longrightarrow> cb_contents cb' ! (unat pos + i) = Some (src ! i)) \<and>
           (\<forall>i. i < unat (size_cb cb) \<and> (i < unat pos \<or> unat pos + unat n \<le> i) \<longrightarrow>
                cb_contents cb' ! i = cb_contents cb ! i) \<and>
           (\<forall>i. unat (size_cb cb) \<le> i \<and> i < unat pos \<longrightarrow> cb_contents cb' ! i = Some 0)"
proof -
  let ?p = "unat pos" and ?n = "unat n" and ?s = "unat (size_cb cb)"
  define xs where "xs = map Some (take ?n src)"
  define P where "P = cb_contents cb @ replicate (?p + ?n - ?s) (Some 0)"
  have f: "2 * unat (capacity cb) + ?p + ?n < 2 ^ 63" using fit by (simp add: cb_fits_def)
  from place_correct [OF wf src f] obtain cb' where
    r: "circlebuf_place cb pos src n = Inr cb'" and w: "cb_wf cb'"
    and sz: "unat (size_cb cb') = max ?s (?p + ?n)"
    and ct0: "cb_contents cb' =
             take ?p (cb_contents cb @ replicate (?p + ?n - ?s) (Some 0)) @
             map Some (take ?n src) @
             drop (?p + ?n) (cb_contents cb @ replicate (?p + ?n - ?s) (Some 0))"
    by blast
  have ct: "cb_contents cb' = take ?p P @ (xs @ drop (?p + ?n) P)"
    unfolding P_def xs_def by (rule ct0)
  have lP: "length P = max ?s (?p + ?n)" by (simp add: P_def max_def)
  have lt: "length (take ?p P) = ?p" using lP by simp
  have lx: "length xs = ?n" using src by (simp add: xs_def)
  have Pold: "P ! i = cb_contents cb ! i" if "i < ?s" for i
    using that by (simp add: P_def nth_append)
  have Pnew: "P ! i = Some 0" if "?s \<le> i" "i < ?p + ?n" for i
    using that by (simp add: P_def nth_append)
  have mid: "cb_contents cb' ! (?p + i) = (xs @ drop (?p + ?n) P) ! i" for i
    using nth_append_length_plus [of "take ?p P" "xs @ drop (?p + ?n) P" i]
    unfolding lt ct .
  have a: "cb_contents cb' ! (?p + i) = Some (src ! i)" if "i < ?n" for i
  proof -
    have "(xs @ drop (?p + ?n) P) ! i = xs ! i" using that lx by (simp add: nth_append)
    also have "\<dots> = Some (src ! i)" using that src by (simp add: xs_def)
    finally show ?thesis unfolding mid .
  qed
  have hd_part: "cb_contents cb' ! i = P ! i" if "i < ?p" for i
  proof -
    have "(take ?p P @ (xs @ drop (?p + ?n) P)) ! i = take ?p P ! i"
      using that lt by (simp only: nth_append if_True)
    then show ?thesis unfolding ct using that by simp
  qed
  have tl_part: "cb_contents cb' ! (?p + (?n + k)) = P ! (?p + ?n + k)"
    if "?p + ?n + k < length P" for k
  proof -
    have "cb_contents cb' ! (?p + (?n + k)) = (xs @ drop (?p + ?n) P) ! (?n + k)" by (rule mid)
    also have "\<dots> = drop (?p + ?n) P ! k"
      using nth_append_length_plus [of xs "drop (?p + ?n) P" k] unfolding lx .
    also have "\<dots> = P ! (?p + ?n + k)"
    proof (rule nth_drop)
      show "?p + ?n \<le> length P" using that by simp
    qed
    finally show ?thesis .
  qed
  have b: "cb_contents cb' ! i = cb_contents cb ! i"
    if "i < ?s" "i < ?p \<or> ?p + ?n \<le> i" for i
  proof (cases "i < ?p")
    case True
    then show ?thesis using hd_part [OF True] Pold [OF that(1)] by simp
  next
    case False
    then have ge: "?p + ?n \<le> i" using that by simp
    define k where "k = i - (?p + ?n)"
    have i: "i = ?p + ?n + k" using ge by (simp add: k_def)
    have "?p + ?n + k < length P" using that(1) lP i by simp
    then have "cb_contents cb' ! (?p + (?n + k)) = P ! (?p + ?n + k)" by (rule tl_part)
    then have "cb_contents cb' ! (?p + ?n + k) = P ! (?p + ?n + k)" by (simp only: add.assoc)
    then have "cb_contents cb' ! i = P ! i" by (simp only: i [symmetric])
    then show ?thesis using Pold [OF that(1)] by simp
  qed
  have c: "cb_contents cb' ! i = Some 0" if "?s \<le> i" "i < ?p" for i
    using hd_part [OF that(2)] Pnew [of i] that by simp
  show ?thesis using r w sz a b c by blast
qed

theorem place_spec_witness:
  "\<exists>cb'. circlebuf_place
       \<lparr>data = [Some 3, None, Some 1, Some 2], size_cb = 3, start_pos = 2,
          end_pos = 1, capacity = 4\<rparr> 5 [7, 8] 2 = Inr cb' \<and> cb_wf cb' \<and>
       unat (size_cb cb') = 7 \<and>
       cb_contents cb' ! 5 = Some 7 \<and> cb_contents cb' ! 6 = Some 8 \<and>
       cb_contents cb' ! 3 = Some 0 \<and> cb_contents cb' ! 4 = Some 0 \<and>
       cb_contents cb' ! 0 =
         cb_contents \<lparr>data = [Some 3, None, Some 1, Some 2], size_cb = 3, start_pos = 2,
            end_pos = 1, capacity = 4\<rparr> ! 0"
proof -
  let ?c = "\<lparr>data = [Some 3, None, Some 1, Some (2::byte)], size_cb = 3, start_pos = 2,
              end_pos = 1, capacity = 4\<rparr>"
  have wf: "cb_wf ?c" by (simp add: cb_wf_def layout_def)
  have src: "unat (2 :: size_t) \<le> length [7, 8 :: byte]" by simp
  have fit: "cb_fits ?c (unat (5 :: size_t) + unat (2 :: size_t))" by (simp add: cb_fits_def)
  from place_spec [OF wf src fit] obtain cb' where
    r: "circlebuf_place ?c 5 [7, 8] 2 = Inr cb'" "cb_wf cb'"
      "unat (size_cb cb') = max (unat (size_cb ?c)) (unat (5 :: size_t) + unat (2 :: size_t))"
    and a: "\<forall>i. i < unat (2 :: size_t) \<longrightarrow>
              cb_contents cb' ! (unat (5 :: size_t) + i) = Some ([7, 8] ! i)"
    and b: "\<forall>i. i < unat (size_cb ?c) \<and> (i < unat (5 :: size_t) \<or>
              unat (5 :: size_t) + unat (2 :: size_t) \<le> i) \<longrightarrow>
              cb_contents cb' ! i = cb_contents ?c ! i"
    and c: "\<forall>i. unat (size_cb ?c) \<le> i \<and> i < unat (5 :: size_t) \<longrightarrow>
              cb_contents cb' ! i = Some 0"
    by blast
  have "cb_contents cb' ! 5 = Some 7" using a [rule_format, of 0] by simp
  moreover have "cb_contents cb' ! 6 = Some 8" using a [rule_format, of 1] by simp
  moreover have "cb_contents cb' ! 3 = Some 0" using c [rule_format, of 3] by simp
  moreover have "cb_contents cb' ! 4 = Some 0" using c [rule_format, of 4] by simp
  moreover have "cb_contents cb' ! 0 = cb_contents ?c ! 0" using b [rule_format, of 0] by simp
  ultimately show ?thesis using r by auto
qed

text \<open>
  Claim C9. For every index \<open>idx\<close>, \<open>circlebuf_data\<close> returns \<open>NULL\<close> exactly when
  \<open>idx >= size\<close>; otherwise it returns a pointer into the block at offset
  \<open>(start_pos + idx) mod capacity\<close>, where the byte at logical position \<open>idx\<close>
  of the content is stored.
\<close>

theorem circlebuf_data_spec:
  assumes wf: "cb_wf cb" and fit: "cb_fits cb 0"
  shows "(circlebuf_data cb idx = None \<longleftrightarrow> size_cb cb \<le> idx) \<and>
         (idx < size_cb cb \<longrightarrow>
            (\<exists>off. circlebuf_data cb idx = Some off \<and>
               unat off = (unat (start_pos cb) + unat idx) mod unat (capacity cb) \<and>
               unat off < length (data cb) \<and>
               data cb ! unat off = cb_contents cb ! unat idx))"
proof -
  have a: "circlebuf_data cb idx = None \<longleftrightarrow> size_cb cb \<le> idx" by (rule circlebuf_data_null)
  have b: "\<exists>off. circlebuf_data cb idx = Some off \<and>
               unat off = (unat (start_pos cb) + unat idx) mod unat (capacity cb) \<and>
               unat off < length (data cb) \<and>
               data cb ! unat off = cb_contents cb ! unat idx" if "idx < size_cb cb"
    using wf fits64_0 [OF fit] that by (rule circlebuf_data_correct)
  show ?thesis using a b by blast
qed

theorem circlebuf_data_spec_witness:
  "circlebuf_data \<lparr>data = [Some 3, None, Some 1, Some 2], size_cb = 3, start_pos = 2,
                    end_pos = 1, capacity = 4\<rparr> 3 = None \<and>
   (\<exists>off. circlebuf_data \<lparr>data = [Some 3, None, Some 1, Some 2], size_cb = 3, start_pos = 2,
                    end_pos = 1, capacity = 4\<rparr> 2 = Some off \<and> unat off = 0 \<and>
          [Some 3, None, Some 1, Some (2::byte)] ! unat off =
          cb_contents \<lparr>data = [Some 3, None, Some 1, Some 2], size_cb = 3, start_pos = 2,
                    end_pos = 1, capacity = 4\<rparr> ! 2)"
proof -
  let ?c = "\<lparr>data = [Some 3, None, Some 1, Some (2::byte)], size_cb = 3, start_pos = 2,
              end_pos = 1, capacity = 4\<rparr>"
  have wf: "cb_wf ?c" by (simp add: cb_wf_def layout_def)
  have fit: "cb_fits ?c 0" by (simp add: cb_fits_def)
  show ?thesis
    using circlebuf_data_spec [OF wf fit, of 3] circlebuf_data_spec [OF wf fit, of 2]
    by auto
qed

end
